theory Spec2Isabelle
  imports Complex_Main "HOL-Library.Word" "HOL-Library.Log_Nat"
begin

unbundle bit_operations_syntax

section \<open>JavaScript numbers and byte arrays\<close>

text \<open>
  A JavaScript number is a rational, or \<open>NaN\<close> (what arithmetic on \<open>undefined\<close>
  gives). The infinities are not modelled: every divisor in the embedded code is a
  non-zero literal, and no value comes near \<open>2 ^ 1024\<close>.

  There are two sets of operations. \<open>jadd\<close>, \<open>jsub\<close>, \<open>jmul\<close> and \<open>jdiv\<close> are exact;
  \<open>fadd\<close>, \<open>fsub\<close>, \<open>fmul\<close> and \<open>fdiv\<close>, defined further down, round the exact
  result to the nearest double as IEEE 754 arithmetic does. The exact ones stand where
  the arithmetic of the code is exact: on array indices and sizes, and on bytes and
  their sixteenths in Floyd-Steinberg and Bayer dithering. They also stand in
  \<open>rampIndex\<close>, where the code rounds a quotient and a product; the text there says what
  that changes. The rounded ones stand in \<open>calculateLuminance\<close>, in the error of
  \<open>atkinsonDither\<close> and in the frame pacing of the engine.
\<close>

datatype jsnum = Num rat | NaN

fun jadd :: "jsnum \<Rightarrow> jsnum \<Rightarrow> jsnum" where
  "jadd (Num a) (Num b) = Num (a + b)"
| "jadd _ _ = NaN"

fun jsub :: "jsnum \<Rightarrow> jsnum \<Rightarrow> jsnum" where
  "jsub (Num a) (Num b) = Num (a - b)"
| "jsub _ _ = NaN"

fun jmul :: "jsnum \<Rightarrow> jsnum \<Rightarrow> jsnum" where
  "jmul (Num a) (Num b) = Num (a * b)"
| "jmul _ _ = NaN"

fun jdiv :: "jsnum \<Rightarrow> jsnum \<Rightarrow> jsnum" where
  "jdiv (Num a) (Num b) = (if b = 0 then NaN else Num (a / b))"
| "jdiv _ _ = NaN"

text \<open>The comparisons \<^verbatim>\<open>>\<close> and \<^verbatim>\<open><=\<close>: false as soon as one side is \<open>NaN\<close>.\<close>

fun jgt :: "jsnum \<Rightarrow> jsnum \<Rightarrow> bool" where
  "jgt (Num a) (Num b) = (a > b)"
| "jgt _ _ = False"

fun jle :: "jsnum \<Rightarrow> jsnum \<Rightarrow> bool" where
  "jle (Num a) (Num b) = (a \<le> b)"
| "jle _ _ = False"

text \<open>\<open>Math.round\<close> rounds half up; \<open>Math.max\<close> and \<open>Math.min\<close> give
  \<open>NaN\<close> when an argument is \<open>NaN\<close>.\<close>

fun Math_round :: "jsnum \<Rightarrow> jsnum" where
  "Math_round (Num a) = Num (of_int \<lfloor>a + 1 / 2\<rfloor>)"
| "Math_round NaN = NaN"

fun Math_floor :: "jsnum \<Rightarrow> jsnum" where
  "Math_floor (Num a) = Num (of_int \<lfloor>a\<rfloor>)"
| "Math_floor NaN = NaN"

fun Math_max :: "jsnum \<Rightarrow> jsnum \<Rightarrow> jsnum" where
  "Math_max (Num a) (Num b) = Num (max a b)"
| "Math_max _ _ = NaN"

fun Math_min :: "jsnum \<Rightarrow> jsnum \<Rightarrow> jsnum" where
  "Math_min (Num a) (Num b) = Num (min a b)"
| "Math_min _ _ = NaN"

subsection \<open>Rounding to a double\<close>

text \<open>
  A double has 53 significant bits, and an exponent of at least \<open>-1022\<close>. \<open>rhe\<close>
  rounds to the nearest integer, a tie going to the even one; \<open>expo x\<close> is the exponent
  of \<open>x\<close>, the \<open>e\<close> with \<open>2 ^ e \<le> \<bar>x\<bar> < 2 ^ (e + 1)\<close>; \<open>gexp x\<close> is the exponent of
  the last bit of the doubles around \<open>x\<close>; \<open>rgrid g x\<close> rounds \<open>x\<close> to a multiple of
  \<open>2 ^ g\<close>. So \<open>fl x\<close> is the double nearest to \<open>x\<close>, a tie going to the one whose last
  bit is 0: the result of an IEEE 754 operation whose exact result is \<open>x\<close>, as long as
  \<open>\<bar>x\<bar>\<close> stays below \<open>2 ^ 1024\<close>. A number \<open>x\<close> is a double when \<open>fl x = x\<close>.
\<close>

definition rhe :: "rat \<Rightarrow> int" where
  "rhe y =
     (let f = \<lfloor>y\<rfloor> in
      if y < of_int f + 1 / 2 then f
      else if y > of_int f + 1 / 2 then f + 1
      else if even f then f
      else f + 1)"

definition expo :: "rat \<Rightarrow> int" where
  "expo x =
     (let (p, q) = quotient_of \<bar>x\<bar>;
          d = bitlen p - bitlen q
      in if \<bar>x\<bar> < 2 powi d then d - 1 else d)"

definition gexp :: "rat \<Rightarrow> int" where
  "gexp x = max (expo x) (- 1022) - 52"

definition rgrid :: "int \<Rightarrow> rat \<Rightarrow> rat" where
  "rgrid g x = of_int (rhe (x / 2 powi g)) * 2 powi g"

definition fl :: "rat \<Rightarrow> rat" where
  "fl x = rgrid (gexp x) x"

text \<open>The arithmetic of doubles, and a decimal literal of the code: the double nearest
  to the number it spells.\<close>

fun fadd :: "jsnum \<Rightarrow> jsnum \<Rightarrow> jsnum" where
  "fadd (Num a) (Num b) = Num (fl (a + b))"
| "fadd _ _ = NaN"

fun fsub :: "jsnum \<Rightarrow> jsnum \<Rightarrow> jsnum" where
  "fsub (Num a) (Num b) = Num (fl (a - b))"
| "fsub _ _ = NaN"

fun fmul :: "jsnum \<Rightarrow> jsnum \<Rightarrow> jsnum" where
  "fmul (Num a) (Num b) = Num (fl (a * b))"
| "fmul _ _ = NaN"

fun fdiv :: "jsnum \<Rightarrow> jsnum \<Rightarrow> jsnum" where
  "fdiv (Num a) (Num b) = (if b = 0 then NaN else Num (fl (a / b)))"
| "fdiv _ _ = NaN"

definition lit :: "rat \<Rightarrow> jsnum" where
  "lit x = Num (fl x)"

text \<open>
  A \<open>Uint8ClampedArray\<close> is a list of bytes. Reading at an index outside the array
  gives \<open>undefined\<close>, which every use in the embedded code feeds to arithmetic, so the
  read gives \<open>NaN\<close> there. Writing outside the array does nothing. A written number is
  converted by \<open>ToUint8Clamp\<close>: \<open>NaN\<close> becomes 0, the value is clamped to 0..255 and
  rounded to the nearest integer, a tie going to the even one.
\<close>

type_synonym u8array = "8 word list"

definition byte :: "8 word \<Rightarrow> jsnum" where
  "byte v = Num (of_nat (unat v))"

definition ToUint8Clamp :: "jsnum \<Rightarrow> 8 word" where
  "ToUint8Clamp v =
     (case v of
        NaN \<Rightarrow> 0
      | Num q \<Rightarrow>
          if q \<le> 0 then 0
          else if q \<ge> 255 then 255
          else (let f = \<lfloor>q\<rfloor> in
                if q < of_int f + 1 / 2 then word_of_int f
                else if q > of_int f + 1 / 2 then word_of_int (f + 1)
                else if even f then word_of_int f
                else word_of_int (f + 1)))"

definition rd :: "u8array \<Rightarrow> int \<Rightarrow> jsnum" where
  "rd d i = (if 0 \<le> i \<and> i < int (length d) then byte (d ! nat i) else NaN)"

definition wr :: "u8array \<Rightarrow> int \<Rightarrow> jsnum \<Rightarrow> u8array" where
  "wr d i v = (if 0 \<le> i \<and> i < int (length d) then d[nat i := ToUint8Clamp v] else d)"

section \<open>Luminance\<close>

text \<open>\<open>calculateLuminance(r, g, b)\<close>: Rec. 709 coefficients, \<open>Math.round\<close>. The three
  products and the two sums, from left to right, are each rounded to a double.\<close>

definition calculateLuminance :: "jsnum \<Rightarrow> jsnum \<Rightarrow> jsnum \<Rightarrow> jsnum" where
  "calculateLuminance r g b =
     Math_round (fadd (fadd (fmul (lit 0.2126) r) (fmul (lit 0.7152) g)) (fmul (lit 0.0722) b))"

text \<open>The number that \<open>calculateLuminance\<close> hands to \<open>Math.round\<close>, on finite arguments
  (\<open>calculateLuminance_Num\<close>).\<close>

definition lumSum :: "rat \<Rightarrow> rat \<Rightarrow> rat \<Rightarrow> rat" where
  "lumSum r g b = fl (fl (fl (fl 0.2126 * r) + fl (fl 0.7152 * g)) + fl (fl 0.0722 * b))"

section \<open>Strings and images\<close>

text \<open>
  A JavaScript string is the list of its UTF-16 code units. Indexing a string gives a
  string of one code unit, or \<open>undefined\<close> outside the string; appending
  \<open>undefined\<close> to a string appends the nine letters of its name.
\<close>

type_synonym jsstring = "nat list"

datatype jsval = Str jsstring | Undefined

definition str_at :: "jsstring \<Rightarrow> jsnum \<Rightarrow> jsval" where
  "str_at s i =
     (case i of
        NaN \<Rightarrow> Undefined
      | Num q \<Rightarrow>
          if q = of_int \<lfloor>q\<rfloor> \<and> 0 \<le> q \<and> q < of_nat (length s)
          then Str [s ! nat \<lfloor>q\<rfloor>] else Undefined)"

definition to_jsstring :: "jsval \<Rightarrow> jsstring" where
  "to_jsstring v = (case v of Str s \<Rightarrow> s | Undefined \<Rightarrow> map of_char ''undefined'')"

text \<open>
  An \<open>ImageData\<close>: \<open>width\<close>, \<open>height\<close> and \<open>data\<close>, four bytes (R, G, B, A)
  for each pixel, row after row. The functions that only read an image take its bytes by
  value; the dithering functions, which copy and then write, take a reference into a
  store of arrays. The browser keeps \<open>length data = 4 * width * height\<close> and both sides
  positive for every \<open>ImageData\<close> it hands out.
\<close>

record 'd imageData =
  width :: nat
  height :: nat
  data :: 'd

definition wf_image :: "u8array imageData \<Rightarrow> bool" where
  "wf_image img =
     (0 < width img \<and> 0 < height img \<and> length (data img) = 4 * width img * height img)"

section \<open>Character mapping by luminance\<close>

text \<open>The index that \<open>charForLuminance\<close> computes for a ramp of length \<open>len\<close>
  (the lines between the two early returns and the final indexing).\<close>

definition rampIndex :: "jsnum \<Rightarrow> nat \<Rightarrow> bool \<Rightarrow> jsnum" where
  "rampIndex luminance len invert =
     (let clamped = Math_max (Num 0) (Math_min (Num 255) luminance);
          index = Math_floor (jmul (jdiv clamped (Num 255)) (Num (of_nat len)));
          index = Math_min index (jsub (Num (of_nat len)) (Num 1))
      in if invert then jsub (jsub (Num (of_nat len)) (Num 1)) index else index)"

definition charForLuminance :: "jsnum \<Rightarrow> jsstring \<Rightarrow> bool \<Rightarrow> jsval" where
  "charForLuminance luminance characters invert =
     (let len = length characters in
      if len = 0 then Str (map of_char '' '')
      else if len = 1 then Str characters
      else str_at characters (rampIndex luminance len invert))"

text \<open>The same index on a finite luminance, as an integer: what \<open>rampIndex\<close> is
  shown to compute (\<open>rampIndex_Num\<close>).\<close>

definition rampIndexInt :: "rat \<Rightarrow> nat \<Rightarrow> int" where
  "rampIndexInt l len = min \<lfloor>max 0 (min 255 l) / 255 * rat_of_nat len\<rfloor> (int len - 1)"

text \<open>The ramp of the character set \<open>simple\<close> of \<open>CHAR_SETS\<close>.\<close>

definition simple_characters :: jsstring where
  "simple_characters = map of_char '' .:-=+*#%@''"

text \<open>\<open>mapLuminance\<close>: the two counting loops are folds over the row and column
  numbers; \<open>row += c\<close> and \<open>rows.push(row)\<close> append.\<close>

definition mapLuminance :: "u8array imageData \<Rightarrow> jsstring \<Rightarrow> bool \<Rightarrow> jsstring list" where
  "mapLuminance imageData characters invert =
     fold (\<lambda>y rows.
        rows @ [fold (\<lambda>x row.
                  let idx = (int y * int (width imageData) + int x) * 4;
                      r = rd (data imageData) idx;
                      g = rd (data imageData) (idx + 1);
                      b = rd (data imageData) (idx + 2);
                      luminance = calculateLuminance r g b
                  in row @ to_jsstring (charForLuminance luminance characters invert))
                [0..<width imageData] []])
       [0..<height imageData] []"

section \<open>Sub-pixel encoders\<close>

definition getPixelLuminance :: "u8array \<Rightarrow> int \<Rightarrow> int \<Rightarrow> int \<Rightarrow> int \<Rightarrow> jsnum" where
  "getPixelLuminance d w h x y =
     (if x < 0 \<or> x \<ge> w \<or> y < 0 \<or> y \<ge> h then Num 0
      else (let idx = (y * w + x) * 4
            in calculateLuminance (rd d idx) (rd d (idx + 1)) (rd d (idx + 2))))"

definition BRAILLE_DOT_MAP :: "nat list list" where
  "BRAILLE_DOT_MAP = [[0x01, 0x08], [0x02, 0x10], [0x04, 0x20], [0x40, 0x80]]"

text \<open>The pattern of one braille cell: the two inner loops of \<open>encodeBraille\<close>.\<close>

definition braillePattern :: "u8array imageData \<Rightarrow> jsnum \<Rightarrow> nat \<Rightarrow> nat \<Rightarrow> nat" where
  "braillePattern imageData threshold charX charY =
     fold (\<lambda>dy pattern.
        fold (\<lambda>dx pattern.
           let px = int charX * 2 + int dx;
               py = int charY * 4 + int dy;
               lum = getPixelLuminance (data imageData) (int (width imageData))
                       (int (height imageData)) px py
           in if jgt lum threshold then pattern OR (BRAILLE_DOT_MAP ! dy ! dx) else pattern)
         [0..<2] pattern)
       [0..<4] 0"

definition encodeBraille :: "u8array imageData \<Rightarrow> jsnum \<Rightarrow> jsstring list" where
  "encodeBraille imageData threshold =
     (let charWidth = nat \<lceil>rat_of_nat (width imageData) / 2\<rceil>;
          charHeight = nat \<lceil>rat_of_nat (height imageData) / 4\<rceil>
      in fold (\<lambda>charY rows.
           rows @ [fold (\<lambda>charX row.
                     row @ [0x2800 + braillePattern imageData threshold charX charY])
                   [0..<charWidth] []])
         [0..<charHeight] [])"

definition QUADRANT_CHARS :: jsstring where
  "QUADRANT_CHARS = [0x20, 0x2598, 0x259D, 0x2580, 0x2596, 0x258C, 0x259E, 0x259B,
                     0x2597, 0x259A, 0x2590, 0x259C, 0x2584, 0x2599, 0x259F, 0x2588]"

text \<open>The four sampled positions of a quadrant cell, as \<open>(dx, dy, bit)\<close>.\<close>

definition positions :: "(int \<times> int \<times> nat) list" where
  "positions = [(0, 0, 1), (1, 0, 2), (0, 1, 4), (1, 1, 8)]"

definition quadrantPattern :: "u8array imageData \<Rightarrow> jsnum \<Rightarrow> nat \<Rightarrow> nat \<Rightarrow> nat" where
  "quadrantPattern imageData threshold charX charY =
     fold (\<lambda>(dx, dy, bit) pattern.
        let px = int charX * 2 + dx;
            py = int charY * 2 + dy;
            lum = getPixelLuminance (data imageData) (int (width imageData))
                    (int (height imageData)) px py
        in if jgt lum threshold then pattern OR bit else pattern)
       positions 0"

definition encodeBlocks :: "u8array imageData \<Rightarrow> jsnum \<Rightarrow> jsstring list" where
  "encodeBlocks imageData threshold =
     (let charWidth = nat \<lceil>rat_of_nat (width imageData) / 2\<rceil>;
          charHeight = nat \<lceil>rat_of_nat (height imageData) / 2\<rceil>
      in fold (\<lambda>charY rows.
           rows @ [fold (\<lambda>charX row.
                     row @ to_jsstring
                       (str_at QUADRANT_CHARS
                          (Num (of_nat (quadrantPattern imageData threshold charX charY)))))
                   [0..<charWidth] []])
         [0..<charHeight] [])"

text \<open>The luminance sampled at a position of an image, and whether it exceeds the
  threshold: the test both encoders make for each sub-pixel.\<close>

definition lumAt :: "u8array imageData \<Rightarrow> int \<Rightarrow> int \<Rightarrow> jsnum" where
  "lumAt imageData px py =
     getPixelLuminance (data imageData) (int (width imageData)) (int (height imageData)) px py"

definition subpixelOn :: "u8array imageData \<Rightarrow> jsnum \<Rightarrow> int \<Rightarrow> int \<Rightarrow> bool" where
  "subpixelOn imageData threshold px py =
     jgt (getPixelLuminance (data imageData) (int (width imageData)) (int (height imageData)) px py)
         threshold"

section \<open>Dithering\<close>

text \<open>
  The store holds the byte arrays by address: an address is a position in the list, and
  \<open>new Uint8ClampedArray(src)\<close> copies \<open>src\<close> into a new array at the next free
  address. An \<open>ImageData\<close> of the dithering functions refers to its bytes by address.
\<close>

type_synonym heap = "u8array list"

definition new_Uint8ClampedArray :: "heap \<Rightarrow> u8array \<Rightarrow> nat \<times> heap" where
  "new_Uint8ClampedArray hp src = (length hp, hp @ [src])"

text \<open>\<open>new ImageData(data, width, height)\<close> wraps the array it is given, without a copy,
  and throws when the length of the array does not fit the sizes.\<close>

datatype error = InvalidStateError | IndexSizeError | TypeError

definition new_ImageData :: "heap \<Rightarrow> nat \<Rightarrow> nat \<Rightarrow> nat \<Rightarrow> error + nat imageData" where
  "new_ImageData hp a w h =
     (let len = length (hp ! a) in
      if len = 0 \<or> len mod 4 \<noteq> 0 then Inl InvalidStateError
      else if w = 0 \<or> (len div 4) mod w \<noteq> 0 then Inl IndexSizeError
      else if (len div 4) div w \<noteq> h then Inl IndexSizeError
      else Inr \<lparr>width = w, height = h, data = a\<rparr>)"

text \<open>The image a reference stands for in a store.\<close>

definition deref :: "heap \<Rightarrow> nat imageData \<Rightarrow> u8array imageData" where
  "deref hp img = \<lparr>width = width img, height = height img, data = hp ! data img\<rparr>"

subsection \<open>Floyd-Steinberg\<close>

text \<open>The closure \<open>distribute\<close> of \<open>floydSteinbergDither\<close>; the variables it captures
  come first, the array it writes last.\<close>

definition fs_distribute ::
  "int \<Rightarrow> int \<Rightarrow> int \<Rightarrow> int \<Rightarrow> jsnum \<Rightarrow> jsnum \<Rightarrow> jsnum \<Rightarrow> int \<Rightarrow> int \<Rightarrow> jsnum \<Rightarrow> u8array \<Rightarrow> u8array"
where
  "fs_distribute w h x y errR errG errB dx dy factor d =
     (let nx = x + dx; ny = y + dy in
      if nx \<ge> 0 \<and> nx < w \<and> ny \<ge> 0 \<and> ny < h then
        (let nidx = (ny * w + nx) * 4;
             d1 = wr d nidx
                    (Math_max (Num 0) (Math_min (Num 255) (jadd (rd d nidx) (jmul errR factor))));
             d2 = wr d1 (nidx + 1)
                    (Math_max (Num 0) (Math_min (Num 255) (jadd (rd d1 (nidx + 1)) (jmul errG factor))));
             d3 = wr d2 (nidx + 2)
                    (Math_max (Num 0) (Math_min (Num 255) (jadd (rd d2 (nidx + 2)) (jmul errB factor))))
         in d3)
      else d)"

text \<open>The body of the two loops of \<open>floydSteinbergDither\<close>, for the pixel \<open>(x, y)\<close>.\<close>

definition fs_pixel :: "int \<Rightarrow> int \<Rightarrow> int \<Rightarrow> int \<Rightarrow> u8array \<Rightarrow> u8array" where
  "fs_pixel w h y x d =
     (let idx = (y * w + x) * 4;
          oldR = rd d idx;
          oldG = rd d (idx + 1);
          oldB = rd d (idx + 2);
          lum = calculateLuminance oldR oldG oldB;
          newVal = (if jgt lum (Num 128) then Num 255 else Num 0);
          d1 = wr d idx newVal;
          d2 = wr d1 (idx + 1) newVal;
          d3 = wr d2 (idx + 2) newVal;
          errR = jsub oldR newVal;
          errG = jsub oldG newVal;
          errB = jsub oldB newVal;
          d4 = fs_distribute w h x y errR errG errB 1 0 (jdiv (Num 7) (Num 16)) d3;
          d5 = fs_distribute w h x y errR errG errB (- 1) 1 (jdiv (Num 3) (Num 16)) d4;
          d6 = fs_distribute w h x y errR errG errB 0 1 (jdiv (Num 5) (Num 16)) d5;
          d7 = fs_distribute w h x y errR errG errB 1 1 (jdiv (Num 1) (Num 16)) d6
      in d7)"

definition fs_loops :: "nat \<Rightarrow> nat \<Rightarrow> u8array \<Rightarrow> u8array" where
  "fs_loops w h d =
     fold (\<lambda>y. fold (\<lambda>x. fs_pixel (int w) (int h) (int y) (int x)) [0..<w]) [0..<h] d"

definition floydSteinbergDither :: "heap \<Rightarrow> nat imageData \<Rightarrow> error + (heap \<times> nat imageData)" where
  "floydSteinbergDither hp imageData =
     (let (a, hp1) = new_Uint8ClampedArray hp (hp ! data imageData);
          hp2 = hp1[a := fs_loops (width imageData) (height imageData) (hp1 ! a)]
      in case new_ImageData hp2 a (width imageData) (height imageData) of
           Inl e \<Rightarrow> Inl e
         | Inr out \<Rightarrow> Inr (hp2, out))"

subsection \<open>Atkinson\<close>

text \<open>The error is a third of a sum, which is not a double in general: the operations
  on it round.\<close>

definition atkinson_distribute ::
  "int \<Rightarrow> int \<Rightarrow> int \<Rightarrow> int \<Rightarrow> jsnum \<Rightarrow> int \<Rightarrow> int \<Rightarrow> u8array \<Rightarrow> u8array"
where
  "atkinson_distribute w h x y errPart dx dy d =
     (let nx = x + dx; ny = y + dy in
      if nx \<ge> 0 \<and> nx < w \<and> ny \<ge> 0 \<and> ny < h then
        (let nidx = (ny * w + nx) * 4;
             d1 = wr d nidx
                    (Math_max (Num 0) (Math_min (Num 255) (fadd (rd d nidx) errPart)));
             d2 = wr d1 (nidx + 1)
                    (Math_max (Num 0) (Math_min (Num 255) (fadd (rd d1 (nidx + 1)) errPart)));
             d3 = wr d2 (nidx + 2)
                    (Math_max (Num 0) (Math_min (Num 255) (fadd (rd d2 (nidx + 2)) errPart)))
         in d3)
      else d)"

definition atkinson_pixel :: "int \<Rightarrow> int \<Rightarrow> int \<Rightarrow> int \<Rightarrow> u8array \<Rightarrow> u8array" where
  "atkinson_pixel w h y x d =
     (let idx = (y * w + x) * 4;
          oldR = rd d idx;
          oldG = rd d (idx + 1);
          oldB = rd d (idx + 2);
          lum = calculateLuminance oldR oldG oldB;
          newVal = (if jgt lum (Num 128) then Num 255 else Num 0);
          d1 = wr d idx newVal;
          d2 = wr d1 (idx + 1) newVal;
          d3 = wr d2 (idx + 2) newVal;
          err = fsub (fdiv (fadd (fadd oldR oldG) oldB) (Num 3)) newVal;
          errPart = fdiv err (Num 8);
          d4 = atkinson_distribute w h x y errPart 1 0 d3;
          d5 = atkinson_distribute w h x y errPart 2 0 d4;
          d6 = atkinson_distribute w h x y errPart (- 1) 1 d5;
          d7 = atkinson_distribute w h x y errPart 0 1 d6;
          d8 = atkinson_distribute w h x y errPart 1 1 d7;
          d9 = atkinson_distribute w h x y errPart 0 2 d8
      in d9)"

definition atkinson_loops :: "nat \<Rightarrow> nat \<Rightarrow> u8array \<Rightarrow> u8array" where
  "atkinson_loops w h d =
     fold (\<lambda>y. fold (\<lambda>x. atkinson_pixel (int w) (int h) (int y) (int x)) [0..<w]) [0..<h] d"

definition atkinsonDither :: "heap \<Rightarrow> nat imageData \<Rightarrow> error + (heap \<times> nat imageData)" where
  "atkinsonDither hp imageData =
     (let (a, hp1) = new_Uint8ClampedArray hp (hp ! data imageData);
          hp2 = hp1[a := atkinson_loops (width imageData) (height imageData) (hp1 ! a)]
      in case new_ImageData hp2 a (width imageData) (height imageData) of
           Inl e \<Rightarrow> Inl e
         | Inr out \<Rightarrow> Inr (hp2, out))"

subsection \<open>Bayer\<close>

text \<open>The second parameter, \<open>matrixSize\<close>, is never read by the body and is left out.\<close>

definition bayer4 :: "nat list list" where
  "bayer4 = [[0, 8, 2, 10], [12, 4, 14, 6], [3, 11, 1, 9], [15, 7, 13, 5]]"

definition bayer_pixel :: "int \<Rightarrow> int \<Rightarrow> int \<Rightarrow> u8array \<Rightarrow> u8array" where
  "bayer_pixel w y x d =
     (let idx = (y * w + x) * 4;
          lum = calculateLuminance (rd d idx) (rd d (idx + 1)) (rd d (idx + 2));
          threshold = jmul (jdiv (Num (of_nat (bayer4 ! nat (y mod 4) ! nat (x mod 4)))) (Num 16))
                           (Num 255);
          newVal = (if jgt lum threshold then Num 255 else Num 0);
          d1 = wr d idx newVal;
          d2 = wr d1 (idx + 1) newVal;
          d3 = wr d2 (idx + 2) newVal
      in d3)"

definition bayer_loops :: "nat \<Rightarrow> nat \<Rightarrow> u8array \<Rightarrow> u8array" where
  "bayer_loops w h d =
     fold (\<lambda>y. fold (\<lambda>x. bayer_pixel (int w) (int y) (int x)) [0..<w]) [0..<h] d"

definition bayerDither :: "heap \<Rightarrow> nat imageData \<Rightarrow> error + (heap \<times> nat imageData)" where
  "bayerDither hp imageData =
     (let (a, hp1) = new_Uint8ClampedArray hp (hp ! data imageData);
          hp2 = hp1[a := bayer_loops (width imageData) (height imageData) (hp1 ! a)]
      in case new_ImageData hp2 a (width imageData) (height imageData) of
           Inl e \<Rightarrow> Inl e
         | Inr out \<Rightarrow> Inr (hp2, out))"

subsection \<open>What the dithering claims say\<close>

text \<open>
  The state of the loops after \<open>k\<close> pixels, in terms of the array \<open>d0\<close> they started
  from: the length and every alpha byte are those of \<open>d0\<close>, and the colour bytes of the
  first \<open>k\<close> pixels are 0 or 255.
\<close>

definition dither_inv :: "u8array \<Rightarrow> nat \<Rightarrow> u8array \<Rightarrow> bool" where
  "dither_inv d0 k d \<longleftrightarrow>
     length d = length d0
     \<and> (\<forall>j < length d0. (j mod 4 = 3 \<longrightarrow> d ! j = d0 ! j)
           \<and> (j mod 4 \<noteq> 3 \<and> j div 4 < k \<longrightarrow> d ! j = 0 \<or> d ! j = 255))"

text \<open>
  The result \<open>(hp', out)\<close> of dithering the image \<open>img\<close> in the store \<open>hp\<close>: the sizes
  are those of \<open>img\<close>; the bytes of \<open>out\<close> are at an address that \<open>hp\<close> did not have,
  and every array of \<open>hp\<close> is unchanged in \<open>hp'\<close>; every colour byte of \<open>out\<close> is 0 or 255
  and every alpha byte is the one of \<open>img\<close>.
\<close>

definition dithered :: "heap \<Rightarrow> nat imageData \<Rightarrow> heap \<Rightarrow> nat imageData \<Rightarrow> bool" where
  "dithered hp img hp' out \<longleftrightarrow>
     width out = width img \<and> height out = height img
     \<and> data out = length hp \<and> length hp' = Suc (length hp)
     \<and> (\<forall>a < length hp. hp' ! a = hp ! a)
     \<and> length (hp' ! data out) = length (hp ! data img)
     \<and> (\<forall>p < width img * height img.
           (hp' ! data out ! (4 * p) = 0 \<or> hp' ! data out ! (4 * p) = 255)
           \<and> (hp' ! data out ! (4 * p + 1) = 0 \<or> hp' ! data out ! (4 * p + 1) = 255)
           \<and> (hp' ! data out ! (4 * p + 2) = 0 \<or> hp' ! data out ! (4 * p + 2) = 255)
           \<and> hp' ! data out ! (4 * p + 3) = hp ! data img ! (4 * p + 3))"

text \<open>
  One step of Floyd-Steinberg in the words of the specification, byte by byte. The pixel
  \<open>(x, y)\<close> becomes \<open>new\<close>, 255 when its luminance exceeds 128 and 0 otherwise; the
  error of a channel is its old value minus \<open>new\<close>; the pixels at \<open>(x+1, y)\<close>,
  \<open>(x-1, y+1)\<close>, \<open>(x, y+1)\<close> and \<open>(x+1, y+1)\<close>, where the image has them, get 7/16, 3/16,
  5/16 and 1/16 of it added, the sum clamped to 0..255; the byte array stores that value
  rounded to the nearest integer (\<open>ToUint8Clamp\<close>). Alpha bytes and all other pixels
  stay.
\<close>

definition clamp_byte :: "jsnum \<Rightarrow> 8 word" where
  "clamp_byte v = ToUint8Clamp (Math_max (Num 0) (Math_min (Num 255) v))"

definition fs_quantize :: "u8array \<Rightarrow> nat \<Rightarrow> jsnum" where
  "fs_quantize d k =
     (if jgt (calculateLuminance (byte (d ! (4 * k))) (byte (d ! (4 * k + 1)))
                (byte (d ! (4 * k + 2)))) (Num 128)
      then Num 255 else Num 0)"

definition fs_step_spec :: "nat \<Rightarrow> nat \<Rightarrow> nat \<Rightarrow> nat \<Rightarrow> u8array \<Rightarrow> u8array" where
  "fs_step_spec w h y x d =
     map (\<lambda>j.
        let c = j mod 4; px = (j div 4) mod w; py = (j div 4) div w;
            k = y * w + x;
            new = fs_quantize d k;
            err = jsub (byte (d ! (4 * k + c))) new;
            add = (\<lambda>factor. clamp_byte (jadd (byte (d ! j)) (jmul err (Num factor))))
        in if c = 3 then d ! j
           else if px = x \<and> py = y then ToUint8Clamp new
           else if px = x + 1 \<and> py = y then add (7 / 16)
           else if px + 1 = x \<and> py = y + 1 then add (3 / 16)
           else if px = x \<and> py = y + 1 then add (5 / 16)
           else if px = x + 1 \<and> py = y + 1 then add (1 / 16)
           else d ! j)
       [0..<length d]"

section \<open>The engine\<close>

text \<open>
  The \<open>AsciiVideoEngine\<close> with the fields that \<open>play\<close>, \<open>pause\<close>, \<open>destroy\<close> and
  \<open>_animate\<close> read or write. A field that holds an object is \<open>None\<close> when it is
  \<open>null\<close>. The container is the list of the class names of its children. Three
  fields stand for the environment: \<open>rafNext\<close>, the next handle that
  \<open>requestAnimationFrame\<close> gives out (handles are positive); \<open>frames\<close>, the
  timestamps at which \<open>_processFrame\<close> was called; \<open>warnings\<close>, the number of calls of
  \<open>console.warn\<close>. Timestamps are exact rationals, in milliseconds.
\<close>

datatype renderMode = CanvasMode | DomMode

record videoElement =
  src :: string
  playing :: bool

record options =
  opt_container :: "string list option"
  opt_playlist :: "string list"
  opt_targetFps :: "rat option"
  opt_renderMode :: "renderMode option"

record engine =
  container :: "string list option"
  videoPlaylist :: "string list"
  targetFps :: rat
  renderMode :: renderMode
  video :: "videoElement option"
  canvas :: bool
  ctx :: bool
  outputCanvas :: "string option"
  outputCtx :: bool
  outputPre :: "string option"
  isPlaying :: bool
  rafId :: "nat option"
  lastFrameTime :: rat
  frameInterval :: rat
  stats_frameCount :: nat
  stats_lastFpsUpdate :: rat
  rafNext :: nat
  frames :: "rat list"
  warnings :: nat

text \<open>The remainder \<^verbatim>\<open>a % b\<close> of two numbers, for \<open>b\<close> other than 0: the quotient is
  truncated towards zero.\<close>

definition js_rem :: "rat \<Rightarrow> rat \<Rightarrow> rat" where
  "js_rem a b = a - b * of_int (if 0 \<le> a / b then \<lfloor>a / b\<rfloor> else \<lceil>a / b\<rceil>)"

text \<open>The constructor with \<open>_init\<close>: \<open>options.targetFps || 24\<close> takes 24 for a missing
  rate and for 0; the output element is appended to the container when there is one.\<close>

definition AsciiVideoEngine_new :: "options \<Rightarrow> engine" where
  "AsciiVideoEngine_new opts =
     (let fps = (case opt_targetFps opts of None \<Rightarrow> 24 | Some f \<Rightarrow> if f = 0 then 24 else f);
          mode = (case opt_renderMode opts of None \<Rightarrow> CanvasMode | Some m \<Rightarrow> m);
          cls = (case mode of CanvasMode \<Rightarrow> ''ascii-output-canvas'' | DomMode \<Rightarrow> ''ascii-output-pre'')
      in \<lparr>container = (case opt_container opts of None \<Rightarrow> None | Some cs \<Rightarrow> Some (cs @ [cls])),
          videoPlaylist = opt_playlist opts,
          targetFps = fps,
          renderMode = mode,
          video = Some \<lparr>src = (case opt_playlist opts of [] \<Rightarrow> '''' | s # _ \<Rightarrow> s), playing = False\<rparr>,
          canvas = True,
          ctx = True,
          outputCanvas = (case mode of CanvasMode \<Rightarrow> Some cls | DomMode \<Rightarrow> None),
          outputCtx = (mode = CanvasMode),
          outputPre = (case mode of CanvasMode \<Rightarrow> None | DomMode \<Rightarrow> Some cls),
          isPlaying = False,
          rafId = None,
          lastFrameTime = 0,
          frameInterval = 1000 / fps,
          stats_frameCount = 0,
          stats_lastFpsUpdate = 0,
          rafNext = 1,
          frames = [],
          warnings = 0\<rparr>)"

text \<open>\<open>_processFrame\<close> draws and updates the statistics; here it is the record of its
  call, with the timestamp of the callback that made it.\<close>

definition processFrame :: "rat \<Rightarrow> engine \<Rightarrow> engine" where
  "processFrame timestamp e =
     e\<lparr>frames := frames e @ [timestamp], stats_frameCount := stats_frameCount e + 1\<rparr>"

definition requestAnimationFrame :: "engine \<Rightarrow> engine" where
  "requestAnimationFrame e = e\<lparr>rafId := Some (rafNext e), rafNext := rafNext e + 1\<rparr>"

definition animate :: "rat \<Rightarrow> engine \<Rightarrow> engine" where
  "animate timestamp e =
     (if \<not> isPlaying e then e
      else
        (let elapsed = timestamp - lastFrameTime e;
             e1 = (if elapsed \<ge> frameInterval e
                   then processFrame timestamp
                          (e\<lparr>lastFrameTime := timestamp - js_rem elapsed (frameInterval e)\<rparr>)
                   else e)
         in requestAnimationFrame e1))"

text \<open>The refresh callbacks that fire with the timestamps \<open>ts\<close>, one after the other.\<close>

definition run :: "rat list \<Rightarrow> engine \<Rightarrow> engine" where
  "run ts e = fold animate ts e"

text \<open>
  A method returns the exception that leaves it, if any, and the engine as it is then.
  \<open>play\<close> is given the value of \<open>performance.now()\<close> and whether the browser lets the
  video start; a rejected start, and the \<open>TypeError\<close> of calling \<open>play\<close> on \<open>null\<close>,
  are caught inside \<open>play\<close> and reported with \<open>console.warn\<close>.
\<close>

definition play :: "rat \<Rightarrow> bool \<Rightarrow> engine \<Rightarrow> error option \<times> engine" where
  "play now allowed e =
     (if isPlaying e then (None, e)
      else case video e of
             None \<Rightarrow> (None, e\<lparr>warnings := warnings e + 1\<rparr>)
           | Some v \<Rightarrow>
               if \<not> allowed then (None, e\<lparr>warnings := warnings e + 1\<rparr>)
               else (None, animate now
                       (e\<lparr>video := Some (v\<lparr>playing := True\<rparr>),
                          isPlaying := True,
                          lastFrameTime := now,
                          stats_lastFpsUpdate := now,
                          stats_frameCount := 0\<rparr>)))"

definition pause :: "engine \<Rightarrow> error option \<times> engine" where
  "pause e =
     (let e1 = e\<lparr>isPlaying := False\<rparr> in
      case video e1 of
        None \<Rightarrow> (Some TypeError, e1)
      | Some v \<Rightarrow>
          (let e2 = e1\<lparr>video := Some (v\<lparr>playing := False\<rparr>)\<rparr>
           in (None, case rafId e2 of None \<Rightarrow> e2 | Some r \<Rightarrow> e2\<lparr>rafId := None\<rparr>)))"

definition removeChild :: "string list option \<Rightarrow> string option \<Rightarrow> string list option" where
  "removeChild parent child =
     (case (parent, child) of
        (Some cs, Some c) \<Rightarrow> Some (remove1 c cs)
      | _ \<Rightarrow> parent)"

definition destroy :: "engine \<Rightarrow> error option \<times> engine" where
  "destroy e =
     (case pause e of
        (Some err, e1) \<Rightarrow> (Some err, e1)
      | (None, e1) \<Rightarrow>
          (let e2 = (case video e1 of None \<Rightarrow> e1 | Some v \<Rightarrow> e1\<lparr>video := None\<rparr>);
               e3 = e2\<lparr>container := removeChild (container e2) (outputCanvas e2)\<rparr>;
               e4 = e3\<lparr>container := removeChild (container e3) (outputPre e3)\<rparr>
           in (None, e4\<lparr>canvas := False, ctx := False, outputCanvas := None,
                         outputCtx := False, outputPre := None\<rparr>)))"

text \<open>An engine built with a target of 10 frames per second, and the timestamps of a
  display that refreshes every 16 milliseconds, for 69 refreshes.\<close>

definition opts10 :: options where
  "opts10 = \<lparr>opt_container = Some [], opt_playlist = [''a.mp4''], opt_targetFps = Some 10,
              opt_renderMode = None\<rparr>"

definition refresh16 :: "rat list" where
  "refresh16 =
    [16, 32, 48, 64, 80, 96, 112, 128, 144, 160, 176, 192, 208, 224,
     240, 256, 272, 288, 304, 320, 336, 352, 368, 384, 400, 416, 432, 448,
     464, 480, 496, 512, 528, 544, 560, 576, 592, 608, 624, 640, 656, 672,
     688, 704, 720, 736, 752, 768, 784, 800, 816, 832, 848, 864, 880, 896,
     912, 928, 944, 960, 976, 992, 1008, 1024, 1040, 1056, 1072, 1088, 1104]"

text \<open>
  The pacing of the processed frames, for the interval \<open>I\<close> and the time \<open>L0\<close> at
  which playback started: \<open>lastFrameTime\<close> has advanced by at least one interval for
  each frame; frame \<open>i\<close> of \<open>n\<close> is less than two intervals after
  \<open>lastFrameTime\<close> minus \<open>n - i\<close> intervals; a later frame \<open>j\<close> is more than
  \<open>j - i - 1\<close> intervals after frame \<open>i\<close>; and frame \<open>i\<close> is at least \<open>i + 1\<close>
  intervals after the start.
\<close>

definition paced :: "rat \<Rightarrow> rat \<Rightarrow> engine \<Rightarrow> bool" where
  "paced I L0 e \<longleftrightarrow>
     L0 + of_nat (length (frames e)) * I \<le> lastFrameTime e
     \<and> (\<forall>i < length (frames e).
           frames e ! i + (of_nat (length (frames e)) - of_nat i) * I < lastFrameTime e + 2 * I)
     \<and> (\<forall>i j. i < j \<and> j < length (frames e) \<longrightarrow>
           (of_nat j - of_nat i - 1) * I < frames e ! j - frames e ! i)
     \<and> (\<forall>i < length (frames e). L0 + of_nat (Suc i) * I \<le> frames e ! i)"

section \<open>The phase animator\<close>

datatype phase = Start | Chaos | Order | Converge | Wave | Filter | Split | Flow

text \<open>What a child of the timeline animates: a property of \<open>state\<close> to an end value, the
  particles, or nothing (an empty object, a pause or a carrier of \<open>onComplete\<close>).\<close>

datatype stateProp = DotScale | WaveExpand | WaveFilter | SplitProgress | FlowStretch | DashOffset

datatype target = OfState stateProp rat | Particles | Empty

text \<open>The \<open>onComplete\<close> callbacks of \<open>runAnimation\<close>.\<close>

datatype action = SetPhase phase | EnterWave | EnterSplit | EnterFlow | StartFlowLoop

record child =
  target :: target
  duration :: rat
  onComplete :: "action option"

text \<open>
  The variables of the module: whether \<open>canvas\<close> is set, \<open>isRunning\<close>,
  \<open>currentPhase\<close>, the timeline (\<open>None\<close> for \<open>null\<close>, otherwise its children that have
  not completed yet), the looping animation \<open>flowLoop\<close> (\<open>None\<close> for \<open>null\<close>, otherwise
  the number of rounds it has completed), and the scalars of \<open>state\<close>. Beside them,
  \<open>canvasInDocument\<close> says whether \<open>document.getElementById\<close> finds the canvas element.
\<close>

record metamorphosis =
  canvasInDocument :: bool
  canvasSet :: bool
  canvasWidth :: rat
  isRunning :: bool
  currentPhase :: phase
  mainTimeline :: "child list option"
  flowLoop :: "nat option"
  dotScale :: rat
  waveExpand :: rat
  waveFilter :: rat
  splitProgress :: rat
  flowStretch :: rat
  dashOffset :: rat
  dotOpacity :: rat

definition startFlowLoop :: "metamorphosis \<Rightarrow> metamorphosis" where
  "startFlowLoop a = (if \<not> isRunning a then a else a\<lparr>dashOffset := 0, flowLoop := Some 0\<rparr>)"

text \<open>\<open>runAnimation\<close>: the reset, then the children in the order of the calls of
  \<open>mainTimeline.add\<close>.\<close>

definition runAnimation :: "metamorphosis \<Rightarrow> metamorphosis" where
  "runAnimation a =
     a\<lparr>currentPhase := Start,
       dotScale := 0, waveExpand := 0, waveFilter := 0, splitProgress := 0, flowStretch := 0,
       dashOffset := 0, dotOpacity := 1,
       mainTimeline := Some
        [\<lparr>target = OfState DotScale 1, duration = 300, onComplete = None\<rparr>,
         \<lparr>target = Empty, duration = 400, onComplete = None\<rparr>,
         \<lparr>target = Empty, duration = 1, onComplete = Some (SetPhase Chaos)\<rparr>,
         \<lparr>target = Particles, duration = 800, onComplete = None\<rparr>,
         \<lparr>target = Empty, duration = 300, onComplete = None\<rparr>,
         \<lparr>target = Empty, duration = 1, onComplete = Some (SetPhase Order)\<rparr>,
         \<lparr>target = Particles, duration = 1500, onComplete = None\<rparr>,
         \<lparr>target = Empty, duration = 600, onComplete = None\<rparr>,
         \<lparr>target = Empty, duration = 1, onComplete = Some (SetPhase Converge)\<rparr>,
         \<lparr>target = Particles, duration = 1200, onComplete = None\<rparr>,
         \<lparr>target = Empty, duration = 400, onComplete = None\<rparr>,
         \<lparr>target = Empty, duration = 1, onComplete = Some EnterWave\<rparr>,
         \<lparr>target = OfState WaveExpand 1, duration = 800, onComplete = None\<rparr>,
         \<lparr>target = Empty, duration = 300, onComplete = None\<rparr>,
         \<lparr>target = Empty, duration = 1, onComplete = Some (SetPhase Filter)\<rparr>,
         \<lparr>target = OfState WaveFilter 1, duration = 1200, onComplete = None\<rparr>,
         \<lparr>target = Empty, duration = 400, onComplete = None\<rparr>,
         \<lparr>target = Empty, duration = 1, onComplete = Some EnterSplit\<rparr>,
         \<lparr>target = OfState SplitProgress (1 / 2), duration = 600, onComplete = None\<rparr>,
         \<lparr>target = OfState SplitProgress 1, duration = 600, onComplete = None\<rparr>,
         \<lparr>target = Empty, duration = 300, onComplete = None\<rparr>,
         \<lparr>target = Empty, duration = 1, onComplete = Some EnterFlow\<rparr>,
         \<lparr>target = OfState FlowStretch 1, duration = 800, onComplete = None\<rparr>,
         \<lparr>target = OfState DashOffset (- (canvasWidth a + 50)), duration = 2000,
            onComplete = Some StartFlowLoop\<rparr>]\<rparr>"

text \<open>\<open>initMetamorphosis\<close> looks the canvas up; the set-up of the drawing context and of the
  particles that follows does not touch the variables above.\<close>

definition initMetamorphosis :: "metamorphosis \<Rightarrow> metamorphosis" where
  "initMetamorphosis a = a\<lparr>canvasSet := canvasInDocument a\<rparr>"

definition startMetamorphosis :: "metamorphosis \<Rightarrow> metamorphosis" where
  "startMetamorphosis a =
     (if isRunning a then a
      else let a1 = (if \<not> canvasSet a then initMetamorphosis a else a)
           in if \<not> canvasSet a1 then a1
              else runAnimation (a1\<lparr>isRunning := True\<rparr>))"

definition stopMetamorphosis :: "metamorphosis \<Rightarrow> metamorphosis" where
  "stopMetamorphosis a =
     (if \<not> isRunning a then a
      else a\<lparr>isRunning := False, mainTimeline := None, flowLoop := None\<rparr>)"

definition setProp :: "stateProp \<Rightarrow> rat \<Rightarrow> metamorphosis \<Rightarrow> metamorphosis" where
  "setProp p v a =
     (case p of
        DotScale \<Rightarrow> a\<lparr>dotScale := v\<rparr>
      | WaveExpand \<Rightarrow> a\<lparr>waveExpand := v\<rparr>
      | WaveFilter \<Rightarrow> a\<lparr>waveFilter := v\<rparr>
      | SplitProgress \<Rightarrow> a\<lparr>splitProgress := v\<rparr>
      | FlowStretch \<Rightarrow> a\<lparr>flowStretch := v\<rparr>
      | DashOffset \<Rightarrow> a\<lparr>dashOffset := v\<rparr>)"

definition perform :: "action \<Rightarrow> metamorphosis \<Rightarrow> metamorphosis" where
  "perform act a =
     (case act of
        SetPhase p \<Rightarrow> a\<lparr>currentPhase := p\<rparr>
      | EnterWave \<Rightarrow> a\<lparr>currentPhase := Wave, waveExpand := 0, waveFilter := 0\<rparr>
      | EnterSplit \<Rightarrow> a\<lparr>currentPhase := Split, splitProgress := 0\<rparr>
      | EnterFlow \<Rightarrow> a\<lparr>currentPhase := Flow, flowStretch := 0\<rparr>
      | StartFlowLoop \<Rightarrow> startFlowLoop a)"

text \<open>
  Modelled from the spec: the tween engine (the library behind \<open>createTimeline\<close> and
  \<open>animate\<close>) is not part of the sources. A timeline plays its children one after the
  other in the order they were added; a child that completes has brought its property to
  the end value and then calls its \<open>onComplete\<close>; an animation with \<open>loop: true\<close> starts
  again each time it ends. One step of \<open>advance\<close> is the next such completion.
\<close>

definition complete :: "child \<Rightarrow> metamorphosis \<Rightarrow> metamorphosis" where
  "complete c a =
     (let a1 = (case target c of OfState p v \<Rightarrow> setProp p v a | _ \<Rightarrow> a)
      in case onComplete c of None \<Rightarrow> a1 | Some act \<Rightarrow> perform act a1)"

definition advance :: "metamorphosis \<Rightarrow> metamorphosis" where
  "advance a =
     (case mainTimeline a of
        None \<Rightarrow> (case flowLoop a of
                   None \<Rightarrow> a
                 | Some n \<Rightarrow> a\<lparr>dashOffset := - (canvasWidth a + 50), flowLoop := Some (Suc n)\<rparr>)
      | Some [] \<Rightarrow> (case flowLoop a of
                   None \<Rightarrow> a
                 | Some n \<Rightarrow> a\<lparr>dashOffset := - (canvasWidth a + 50), flowLoop := Some (Suc n)\<rparr>)
      | Some (c # cs) \<Rightarrow> complete c (a\<lparr>mainTimeline := Some cs\<rparr>))"

text \<open>The phases that are current at the start and after each of the first \<open>n\<close> steps.\<close>

definition phaseTrace :: "nat \<Rightarrow> metamorphosis \<Rightarrow> phase list" where
  "phaseTrace n a = map (\<lambda>k. currentPhase ((advance ^^ k) a)) [0..<Suc n]"

text \<open>The module before the animation has been started, with an 800 pixel canvas.\<close>

definition idle :: metamorphosis where
  "idle = \<lparr>canvasInDocument = True, canvasSet = False, canvasWidth = 800, isRunning = False, currentPhase = Start,
            mainTimeline = None, flowLoop = None, dotScale = 0, waveExpand = 0, waveFilter = 0,
            splitProgress = 0, flowStretch = 0, dashOffset = 0, dotOpacity = 1\<rparr>"

section \<open>Facts about rounding to a double\<close>

lemma rhe_cases: "rhe y = \<lfloor>y\<rfloor> \<or> rhe y = \<lfloor>y\<rfloor> + 1"
  by (simp add: rhe_def Let_def)

lemma rhe_of_int [simp]: "rhe (of_int n) = n"
  by (simp add: rhe_def Let_def)

lemma rhe_err: "\<bar>of_int (rhe y) - y\<bar> \<le> 1 / 2"
proof -
  have "of_int \<lfloor>y\<rfloor> \<le> y" "y < of_int \<lfloor>y\<rfloor> + 1" by linarith+
  then show ?thesis by (auto simp add: rhe_def Let_def abs_le_iff)
qed

lemma rhe_mono:
  assumes "y \<le> z"
  shows "rhe y \<le> rhe z"
proof -
  have fm: "\<lfloor>y\<rfloor> \<le> \<lfloor>z\<rfloor>" using assms by (rule floor_mono)
  show ?thesis
  proof (cases "\<lfloor>y\<rfloor> = \<lfloor>z\<rfloor>")
    case True
    then show ?thesis using assms by (auto simp add: rhe_def Let_def)
  next
    case False
    then have "\<lfloor>y\<rfloor> + 1 \<le> \<lfloor>z\<rfloor>" using fm by linarith
    then show ?thesis using rhe_cases [of y] rhe_cases [of z] by linarith
  qed
qed

lemma rhe_minus: "rhe (- y) = - rhe y"
proof (cases "y = of_int \<lfloor>y\<rfloor>")
  case True
  then obtain n where "y = of_int n" by blast
  then show ?thesis by (simp flip: of_int_minus)
next
  case False
  then have c: "\<lfloor>- y\<rfloor> = - \<lfloor>y\<rfloor> - 1"
    by (metis ceiling_def ceiling_altdef add_uminus_conv_diff minus_add_distrib minus_minus)
  have "of_int \<lfloor>y\<rfloor> \<le> y" "y < of_int \<lfloor>y\<rfloor> + 1" by linarith+
  then show ?thesis using False
    by (auto simp add: rhe_def Let_def c)
qed


lemma powi2_pos [simp]: "0 < (2::rat) powi e"
  by (simp add: power_int_def)

lemma powi2_mono: "e \<le> e' \<Longrightarrow> (2::rat) powi e \<le> 2 powi e'"
  by (rule power_int_increasing) simp_all

lemma powi2_strict_mono: "e < e' \<Longrightarrow> (2::rat) powi e < 2 powi e'"
  by (rule power_int_strict_increasing) simp_all

lemma powi2_Suc: "(2::rat) powi (e + 1) = 2 * 2 powi e"
  by (simp add: power_int_add)

lemma powi2_split: "(2::rat) powi (a + b) = 2 powi a * 2 powi b"
  by (simp add: power_int_add)

lemma bitlen_powi:
  assumes "0 < p"
  shows "(2::rat) powi (bitlen p - 1) \<le> of_int p" and "of_int p < (2::rat) powi bitlen p"
proof -
  have b: "1 \<le> bitlen p" using assms by (auto simp: bitlen_alt_def)
  from bitlen_bounds [OF assms]
  have lo: "2 ^ nat (bitlen p - 1) \<le> p" and hi: "p < 2 ^ nat (bitlen p)" by simp_all
  have "rat_of_int (2 ^ nat (bitlen p - 1)) \<le> of_int p" using lo by (simp only: of_int_le_iff)
  moreover have "(2::rat) powi (bitlen p - 1) = 2 ^ nat (bitlen p - 1)"
    using b by (simp add: power_int_def)
  ultimately show "(2::rat) powi (bitlen p - 1) \<le> of_int p" by simp
  have "rat_of_int p < of_int (2 ^ nat (bitlen p))" using hi by (simp only: of_int_less_iff)
  moreover have "(2::rat) powi bitlen p = 2 ^ nat (bitlen p)"
    using b by (simp add: power_int_def)
  ultimately show "of_int p < (2::rat) powi bitlen p" by simp
qed

lemma expo_bounds:
  assumes "x \<noteq> 0"
  shows "2 powi (expo x) \<le> \<bar>x\<bar>" and "\<bar>x\<bar> < 2 powi (expo x + 1)"
proof -
  obtain p q where pq: "quotient_of \<bar>x\<bar> = (p, q)" by (cases "quotient_of \<bar>x\<bar>")
  have q: "0 < q" using pq by (rule quotient_of_denom_pos)
  have x: "\<bar>x\<bar> = of_int p / of_int q" using pq by (rule quotient_of_div)
  have a: "0 < \<bar>x\<bar>" using assms by simp
  have p: "0 < p"
  proof (rule ccontr)
    assume "\<not> 0 < p"
    then have "rat_of_int p \<le> 0" by simp
    then have "rat_of_int p / of_int q \<le> 0" using q by (simp add: divide_le_0_iff)
    then show False using a x by simp
  qed
  define d where "d = bitlen p - bitlen q"
  have e: "expo x = (if \<bar>x\<bar> < 2 powi d then d - 1 else d)"
    by (simp add: expo_def pq d_def Let_def)
  note bp = bitlen_powi [OF p] and bq = bitlen_powi [OF q]
  have q0: "0 < rat_of_int q" using q by simp
  have lo: "2 powi (d - 1) \<le> \<bar>x\<bar>"
  proof -
    have "(2::rat) powi (d - 1) * of_int q \<le> 2 powi (d - 1) * 2 powi bitlen q"
      using bq(2) by (simp add: mult_left_mono)
    also have "\<dots> = 2 powi (bitlen p - 1)"
      by (simp add: d_def flip: power_int_add)
    also have "\<dots> \<le> of_int p" by (rule bp(1))
    finally show ?thesis using q0 by (simp add: x pos_le_divide_eq)
  qed
  have hi: "\<bar>x\<bar> < 2 powi (d + 1)"
  proof -
    have "rat_of_int p < 2 powi bitlen p" by (rule bp(2))
    also have "\<dots> = 2 powi (d + 1) * 2 powi (bitlen q - 1)"
      by (simp add: d_def flip: power_int_add)
    also have "\<dots> \<le> 2 powi (d + 1) * of_int q"
      using bq(1) by (simp add: mult_left_mono)
    finally show ?thesis using q0 by (simp add: x pos_divide_less_eq)
  qed
  show "2 powi (expo x) \<le> \<bar>x\<bar>" using lo by (simp add: e)
  show "\<bar>x\<bar> < 2 powi (expo x + 1)" using hi by (simp add: e)
qed

lemma expo_eqI:
  assumes "2 powi e \<le> \<bar>x\<bar>" and "\<bar>x\<bar> < 2 powi (e + 1)"
  shows "expo x = e"
proof -
  have "0 < \<bar>x\<bar>" using assms(1) powi2_pos [of e] by linarith
  then have x0: "x \<noteq> 0" by simp
  note b = expo_bounds [OF x0]
  have "\<not> expo x < e"
  proof
    assume "expo x < e"
    then have "(2::rat) powi (expo x + 1) \<le> 2 powi e" by (intro powi2_mono) simp
    then show False using b(2) assms(1) by linarith
  qed
  moreover have "\<not> e < expo x"
  proof
    assume "e < expo x"
    then have "(2::rat) powi (e + 1) \<le> 2 powi expo x" by (intro powi2_mono) simp
    then show False using b(1) assms(2) by linarith
  qed
  ultimately show ?thesis by simp
qed

lemma expo_minus [simp]: "expo (- x) = expo x"
  by (simp add: expo_def)

lemma expo_mono:
  assumes "0 < x" "x \<le> y"
  shows "expo x \<le> expo y"
proof (rule ccontr)
  assume "\<not> expo x \<le> expo y"
  then have "expo y + 1 \<le> expo x" by simp
  then have "(2::rat) powi (expo y + 1) \<le> 2 powi expo x" by (rule powi2_mono)
  moreover have "\<bar>y\<bar> < 2 powi (expo y + 1)" using assms by (intro expo_bounds) simp
  moreover have "2 powi expo x \<le> \<bar>x\<bar>" using assms by (intro expo_bounds) simp
  ultimately show False using assms by simp
qed

lemma fl_rgrid: "fl x = rgrid (gexp x) x"
  by (simp add: fl_def)

lemma rgrid_mono:
  assumes "x \<le> y"
  shows "rgrid g x \<le> rgrid g y"
proof -
  have p: "0 \<le> (2::rat) powi g" using powi2_pos [of g] by linarith
  have "x / 2 powi g \<le> y / 2 powi g" using assms p by (rule divide_right_mono)
  then have "rhe (x / 2 powi g) \<le> rhe (y / 2 powi g)" by (rule rhe_mono)
  then have "rat_of_int (rhe (x / 2 powi g)) \<le> of_int (rhe (y / 2 powi g))"
    by (simp only: of_int_le_iff)
  then show ?thesis unfolding rgrid_def using p by (rule mult_right_mono)
qed

lemma powi2_shift: "(2::rat) powi (e + int n) = 2 ^ n * 2 powi e"
  by (simp add: power_int_add)

lemma powi2_53: "(2::rat) powi (e + 1) = of_int (2 ^ 53) * 2 powi (e - 52)"
proof -
  have "e - 52 + int 53 = e + 1" by simp
  then have "(2::rat) powi (e + 1) = 2 powi (e - 52 + int 53)" by (simp only:)
  also have "\<dots> = 2 ^ 53 * 2 powi (e - 52)" by (rule powi2_shift)
  finally show ?thesis by simp
qed

lemma powi2_52: "(2::rat) powi e = of_int (2 ^ 52) * 2 powi (e - 52)"
proof -
  have "e - 52 + int 52 = e" by simp
  then have "(2::rat) powi e = 2 powi (e - 52 + int 52)" by (simp only:)
  also have "\<dots> = 2 ^ 52 * 2 powi (e - 52)" by (rule powi2_shift)
  finally show ?thesis by simp
qed

lemma rgrid_fix [simp]: "rgrid g (of_int k * 2 powi g) = of_int k * 2 powi g"
proof -
  have "(2::rat) powi g \<noteq> 0" using powi2_pos [of g] by linarith
  then have "rat_of_int k * 2 powi g / 2 powi g = of_int k"
    by (rule nonzero_mult_div_cancel_right)
  then show ?thesis by (simp only: rgrid_def rhe_of_int)
qed

lemma rhe_0 [simp]: "rhe 0 = 0"
  using rhe_of_int [of 0] by (simp only: of_int_0)

lemma rgrid_0 [simp]: "rgrid g 0 = 0"
  by (simp only: rgrid_def div_0 rhe_0 of_int_0 mult_zero_left)

lemma rgrid_minus: "rgrid g (- x) = - rgrid g x"
  by (simp add: rgrid_def rhe_minus)

lemma rgrid_err: "\<bar>rgrid g x - x\<bar> \<le> 2 powi g / 2"
proof -
  have "rgrid g x - x = (of_int (rhe (x / 2 powi g)) - x / 2 powi g) * 2 powi g"
    by (simp add: rgrid_def algebra_simps)
  then have "\<bar>rgrid g x - x\<bar> = \<bar>of_int (rhe (x / 2 powi g)) - x / 2 powi g\<bar> * 2 powi g"
    by (simp add: abs_mult)
  also have "\<dots> \<le> 1 / 2 * 2 powi g"
    by (intro mult_right_mono rhe_err) simp
  finally show ?thesis by simp
qed

lemma grid_coarser:
  assumes "g' \<le> g"
  shows "\<exists>k'. of_int k * (2::rat) powi g = of_int k' * 2 powi g'"
proof -
  have "(2::rat) powi g = 2 powi (g - g') * 2 powi g'"
    by (simp flip: power_int_add)
  moreover have "(2::rat) powi (g - g') = of_int (2 ^ nat (g - g'))"
    using assms by (simp add: power_int_def)
  ultimately have "of_int k * (2::rat) powi g = of_int (k * 2 ^ nat (g - g')) * 2 powi g'"
    by simp
  then show ?thesis by blast
qed

lemma fl_0 [simp]: "fl 0 = 0"
  by (simp add: fl_rgrid)

lemma gexp_minus [simp]: "gexp (- x) = gexp x"
  by (simp add: gexp_def)

lemma fl_minus: "fl (- x) = - fl x"
  by (simp add: fl_rgrid rgrid_minus)

lemma fl_nonneg: "0 \<le> x \<Longrightarrow> 0 \<le> fl x"
  using rgrid_mono [of 0 x "gexp x"] by (simp add: fl_rgrid)

lemma fl_nonpos: "x \<le> 0 \<Longrightarrow> fl x \<le> 0"
  using rgrid_mono [of x 0 "gexp x"] by (simp add: fl_rgrid)

lemma gexp_mono: "0 < x \<Longrightarrow> x \<le> y \<Longrightarrow> gexp x \<le> gexp y"
  using expo_mono [of x y] by (simp add: gexp_def)

lemma fl_mono_pos:
  assumes "0 < x" "x \<le> y"
  shows "fl x \<le> fl y"
proof (cases "gexp x = gexp y")
  case True
  then show ?thesis using assms(2) by (simp add: fl_rgrid rgrid_mono)
next
  case False
  then have lt: "gexp x < gexp y" using gexp_mono [OF assms] by simp
  have y0: "0 < y" using assms by simp
  have ey: "gexp y = expo y - 52" and big: "max (expo x) (- 1022) < expo y"
    using lt unfolding gexp_def max_def by (simp_all split: if_splits)
  define E where "E = max (expo x) (- 1022)"
  have gx: "gexp x = E - 52" by (simp add: gexp_def E_def)
  have "x < 2 powi (expo x + 1)" using expo_bounds(2) [of x] assms(1) by simp
  also have "\<dots> \<le> 2 powi (E + 1)" by (intro powi2_mono) (simp add: E_def)
  finally have xb: "x \<le> 2 powi (E + 1)" by simp
  have "(2::rat) powi (E + 1) = of_int (2 ^ 53) * 2 powi (E - 52)"
    by (rule powi2_53)
  then have "rgrid (E - 52) (2 powi (E + 1)) = 2 powi (E + 1)"
    by (simp only: rgrid_fix)
  then have 1: "fl x \<le> 2 powi (E + 1)"
    using rgrid_mono [OF xb, of "E - 52"] by (simp add: fl_rgrid gx)
  have "E + 1 \<le> expo y" using big unfolding E_def by linarith
  then have 2: "(2::rat) powi (E + 1) \<le> 2 powi expo y" by (rule powi2_mono)
  have yb: "2 powi expo y \<le> y" using expo_bounds(1) [of y] y0 by simp
  have "(2::rat) powi expo y = of_int (2 ^ 52) * 2 powi (expo y - 52)"
    by (rule powi2_52)
  then have "rgrid (expo y - 52) (2 powi expo y) = 2 powi expo y"
    by (simp only: rgrid_fix)
  then have 3: "2 powi expo y \<le> fl y"
    using rgrid_mono [OF yb, of "expo y - 52"] by (simp add: fl_rgrid ey)
  show ?thesis using 1 2 3 by linarith
qed

lemma fl_mono:
  assumes "x \<le> y"
  shows "fl x \<le> fl y"
proof -
  consider "0 < x" | "x \<le> 0" "0 \<le> y" | "y < 0" by linarith
  then show ?thesis
  proof cases
    case 1
    then show ?thesis using assms by (rule fl_mono_pos)
  next
    case 2
    then show ?thesis using fl_nonpos [of x] fl_nonneg [of y] by linarith
  next
    case 3
    then have "fl (- y) \<le> fl (- x)" using assms by (intro fl_mono_pos) simp_all
    then show ?thesis by (simp add: fl_minus)
  qed
qed

lemma fl_eval:
  assumes "2 powi e \<le> \<bar>x\<bar>" "\<bar>x\<bar> < 2 powi (e + 1)" "- 1022 \<le> e"
  shows "fl x = rgrid (e - 52) x"
  using expo_eqI [OF assms(1,2)] assms(3) by (simp add: fl_rgrid gexp_def)

lemma fl_err: "\<bar>fl x - x\<bar> \<le> 2 powi gexp x / 2"
  using rgrid_err [of "gexp x" x] by (simp only: fl_rgrid)

lemma fl_err_bound:
  assumes "\<bar>x\<bar> < 2 powi n" "- 1021 \<le> n"
  shows "\<bar>fl x - x\<bar> \<le> 2 powi (n - 53) / 2"
proof (cases "x = 0")
  case True
  then show ?thesis by simp
next
  case False
  have "expo x < n"
  proof (rule ccontr)
    assume "\<not> expo x < n"
    then have "(2::rat) powi n \<le> 2 powi expo x" by (intro powi2_mono) simp
    then show False using expo_bounds(1) [OF False] assms(1) by linarith
  qed
  then have "gexp x \<le> n - 53" using assms(2) by (simp add: gexp_def)
  then have "(2::rat) powi gexp x \<le> 2 powi (n - 53)" by (rule powi2_mono)
  then show ?thesis using fl_err [of x] by linarith
qed

lemma fl_fix:
  assumes "\<bar>k\<bar> \<le> 2 ^ 53" "- 1074 \<le> g"
  shows "fl (of_int k * 2 powi g) = of_int k * 2 powi g"
proof (cases "k = 0")
  case True
  then show ?thesis by simp
next
  case False
  let ?x = "of_int k * (2::rat) powi g"
  have x0: "?x \<noteq> 0" using False by simp
  have ax: "\<bar>?x\<bar> = of_int \<bar>k\<bar> * 2 powi g" by (simp add: abs_mult)
  show ?thesis
  proof (cases "\<bar>k\<bar> = 2 ^ 53")
    case True
    have p53: "(2::rat) powi (g + 53) = 2 powi g * 2 ^ 53"
      by (simp add: power_int_add)
    have "rat_of_int \<bar>k\<bar> = 2 ^ 53" by (simp only: True) simp
    then have "\<bar>?x\<bar> = 2 powi (g + 53)"
      by (simp only: ax p53 mult.commute)
    then have "expo ?x = g + 53"
      by (intro expo_eqI) (simp_all add: powi2_strict_mono)
    then have gx: "gexp ?x = g + 1" using assms(2) by (simp add: gexp_def)
    have "\<exists>k'. of_int k' * (2::rat) powi (g + 1) = ?x"
    proof (cases "0 \<le> k")
      case True
      then have "k = 2 ^ 53" using \<open>\<bar>k\<bar> = 2 ^ 53\<close> by simp
      then have "of_int (2 ^ 52) * (2::rat) powi (g + 1) = ?x"
        by (simp add: power_int_add)
      then show ?thesis by blast
    next
      case False
      then have "k = - (2 ^ 53)" using \<open>\<bar>k\<bar> = 2 ^ 53\<close> by simp
      then have "of_int (- (2 ^ 52)) * (2::rat) powi (g + 1) = ?x"
        by (simp add: power_int_add)
      then show ?thesis by blast
    qed
    then obtain k' where "of_int k' * (2::rat) powi (g + 1) = ?x" by blast
    then have "rgrid (g + 1) ?x = ?x" using rgrid_fix [of "g + 1" k'] by simp
    then show ?thesis by (simp only: fl_rgrid gx)
  next
    case False
    then have "\<bar>k\<bar> < 2 ^ 53" using assms(1) by simp
    then have "rat_of_int \<bar>k\<bar> < of_int (2 ^ 53)" by (simp only: of_int_less_iff)
    then have "\<bar>?x\<bar> < 2 ^ 53 * 2 powi g" by (simp add: ax)
    also have "\<dots> = 2 powi (g + 53)" by (simp add: power_int_add)
    finally have "\<bar>?x\<bar> < 2 powi (g + 53)" .
    have "expo ?x < g + 53"
    proof (rule ccontr)
      assume "\<not> expo ?x < g + 53"
      then have "(2::rat) powi (g + 53) \<le> 2 powi expo ?x" by (intro powi2_mono) simp
      then show False using expo_bounds(1) [OF x0] \<open>\<bar>?x\<bar> < 2 powi (g + 53)\<close> by linarith
    qed
    then have "gexp ?x \<le> g" using assms(2) by (simp add: gexp_def)
    then obtain k' where "?x = of_int k' * 2 powi gexp ?x"
      using grid_coarser by blast
    then have "rgrid (gexp ?x) ?x = ?x" using rgrid_fix [of "gexp ?x" k'] by simp
    then show ?thesis by (simp only: fl_rgrid)
  qed
qed

lemma fl_of_int:
  assumes "\<bar>n\<bar> \<le> 2 ^ 53"
  shows "fl (of_int n) = of_int n"
  using fl_fix [OF assms, of 0] by simp

lemma rhe_eqI:
  assumes "\<bar>y - of_int n\<bar> < 1 / 2"
  shows "rhe y = n"
proof -
  have "\<bar>of_int (rhe y) - y\<bar> \<le> 1 / 2" by (rule rhe_err)
  then have "\<bar>rat_of_int (rhe y) - of_int n\<bar> < 1" using assms by linarith
  then have "\<bar>rat_of_int (rhe y - n)\<bar> < 1" by simp
  then have "\<bar>rhe y - n\<bar> < 1" by (simp only: flip: of_int_abs)
  then show ?thesis by linarith
qed

lemma fl_evalI:
  assumes "2 powi e \<le> \<bar>x\<bar>" "\<bar>x\<bar> < 2 powi (e + 1)" "- 1022 \<le> e"
    and "\<bar>x / 2 powi (e - 52) - of_int n\<bar> < 1 / 2"
  shows "fl x = of_int n * 2 powi (e - 52)"
  using fl_eval [OF assms(1-3)] rhe_eqI [OF assms(4)] by (simp add: rgrid_def)

lemma c1: "fl 0.2126 = 1914930561557935 / 9007199254740992"
  using fl_evalI [of "- 3" "0.2126" 7659722246231740] by simp

lemma c2: "fl 0.7152 = 6441948906990757 / 9007199254740992"
  using fl_evalI [of "- 1" "0.7152" 6441948906990757] by simp

lemma c3: "fl 0.0722 = 5202558289538397 / 72057594037927936"
  using fl_evalI [of "- 4" "0.0722" 5202558289538397] by simp


section \<open>Facts about numbers and byte arrays\<close>

lemma floor_rat_numeral [simp]:
  "\<lfloor>(numeral a / numeral b :: rat)\<rfloor> = numeral a div numeral b"
proof -
  have "\<lfloor>(of_int (numeral a) / of_int (numeral b) :: rat)\<rfloor> = numeral a div numeral b"
    by (rule floor_divide_of_int_eq)
  then show ?thesis by simp
qed

lemma floor_rat_one_numeral [simp]:
  "\<lfloor>(1 / numeral b :: rat)\<rfloor> = 1 div numeral b"
proof -
  have "\<lfloor>(of_int 1 / of_int (numeral b) :: rat)\<rfloor> = 1 div numeral b"
    by (rule floor_divide_of_int_eq)
  then show ?thesis by simp
qed

lemma unat_byte_le: "unat (v :: 8 word) \<le> 255"
proof -
  have "unat v < 2 ^ LENGTH(8)" by (rule unsigned_less)
  then show ?thesis by simp
qed

lemma byte_0 [simp]: "byte 0 = Num 0"
  by (simp add: byte_def)

lemma byte_255 [simp]: "byte 255 = Num 255"
  by (simp add: byte_def)

lemma rat_of_nat_le_255: "n \<le> 255 \<Longrightarrow> rat_of_nat n \<le> 255"
proof -
  assume "n \<le> 255"
  then have "rat_of_nat n \<le> rat_of_nat 255" by (simp only: of_nat_le_iff)
  then show ?thesis by simp
qed

lemma calculateLuminance_Num:
  "calculateLuminance (Num r) (Num g) (Num b) = Num (of_int \<lfloor>lumSum r g b + 1 / 2\<rfloor>)"
  by (simp add: calculateLuminance_def lit_def lumSum_def)

lemma white_p1: "fl (fl 0.2126 * 255) = 7629801456207397 / 2 ^ 47"
  unfolding c1
  by (rule trans [OF fl_evalI [where e = 5 and n = 7629801456207397]]) simp_all

lemma white_p2: "fl (fl 0.7152 * 255) = 6416785044072824 / 2 ^ 45"
  unfolding c2
  by (rule trans [OF fl_evalI [where e = 7 and n = 6416785044072824]]) simp_all

lemma white_p3: "fl (fl 0.0722 * 255) = 5182235796219888 / 2 ^ 48"
  unfolding c3
  by (rule trans [OF fl_evalI [where e = 4 and n = 5182235796219888]]) simp_all

lemma white_s1: "fl (fl (fl 0.2126 * 255) + fl (fl 0.7152 * 255)) = 8324235408124673 / 2 ^ 45"
  unfolding white_p1 white_p2
  by (rule trans [OF fl_evalI [where e = 7 and n = 8324235408124673]]) simp_all

lemma white_s2: "lumSum 255 255 255 = 8972014882652159 / 2 ^ 45"
  unfolding lumSum_def white_s1 white_p3
  by (rule trans [OF fl_evalI [where e = 7 and n = 8972014882652159]]) simp_all

lemma calculateLuminance_white_Num: "calculateLuminance (Num 255) (Num 255) (Num 255) = Num 255"
  unfolding calculateLuminance_Num white_s2 by simp

lemma lumSum_0: "lumSum 0 0 0 = 0"
  unfolding lumSum_def by (simp only: mult_zero_right fl_0 add_0_left)

lemma calculateLuminance_black_Num: "calculateLuminance (Num 0) (Num 0) (Num 0) = Num 0"
  unfolding calculateLuminance_Num lumSum_0 by simp

lemma lumSum_mono:
  assumes "r \<le> r'" "g \<le> g'" "b \<le> b'"
  shows "lumSum r g b \<le> lumSum r' g' b'"
proof -
  have k1: "0 \<le> fl 0.2126" and k2: "0 \<le> fl 0.7152" and k3: "0 \<le> fl 0.0722"
    unfolding c1 c2 c3 by simp_all
  have p1: "fl (fl 0.2126 * r) \<le> fl (fl 0.2126 * r')"
    by (rule fl_mono [OF mult_left_mono [OF assms(1) k1]])
  have p2: "fl (fl 0.7152 * g) \<le> fl (fl 0.7152 * g')"
    by (rule fl_mono [OF mult_left_mono [OF assms(2) k2]])
  have p3: "fl (fl 0.0722 * b) \<le> fl (fl 0.0722 * b')"
    by (rule fl_mono [OF mult_left_mono [OF assms(3) k3]])
  have s1: "fl (fl (fl 0.2126 * r) + fl (fl 0.7152 * g))
          \<le> fl (fl (fl 0.2126 * r') + fl (fl 0.7152 * g'))"
    by (rule fl_mono [OF add_mono [OF p1 p2]])
  show ?thesis unfolding lumSum_def by (rule fl_mono [OF add_mono [OF s1 p3]])
qed

lemma lumSum_nonneg:
  assumes "0 \<le> r" "0 \<le> g" "0 \<le> b"
  shows "0 \<le> lumSum r g b"
  using lumSum_mono [OF assms] by (simp only: lumSum_0)

lemma calculateLuminance_Num_mono:
  assumes "r \<le> r'" "g \<le> g'" "b \<le> b'"
  shows "jle (calculateLuminance (Num r) (Num g) (Num b))
             (calculateLuminance (Num r') (Num g') (Num b'))"
proof -
  have "lumSum r g b + 1 / 2 \<le> lumSum r' g' b' + 1 / 2"
    using lumSum_mono [OF assms] by simp
  then have "\<lfloor>lumSum r g b + 1 / 2\<rfloor> \<le> \<lfloor>lumSum r' g' b' + 1 / 2\<rfloor>"
    by (rule floor_mono)
  then show ?thesis
    by (simp only: calculateLuminance_Num jle.simps of_int_le_iff)
qed

lemma scaled_err:
  fixes k c d r e :: rat
  assumes "k - c = d" "0 \<le> r" "r \<le> 255" "\<bar>d\<bar> * 255 \<le> e"
  shows "\<bar>k * r - c * r\<bar> \<le> e"
proof -
  have "k * r - c * r = d * r" by (simp only: flip: assms(1) left_diff_distrib)
  then have "\<bar>k * r - c * r\<bar> = \<bar>d\<bar> * r" using assms(2) by (simp add: abs_mult)
  also have "\<dots> \<le> \<bar>d\<bar> * 255" using assms(3) by (intro mult_left_mono) simp_all
  finally show ?thesis using assms(4) by linarith
qed

lemma lumSum_err:
  assumes r: "0 \<le> r" "r \<le> 255" and g: "0 \<le> g" "g \<le> 255" and b: "0 \<le> b" "b \<le> 255"
  shows "\<bar>lumSum r g b - (0.2126 * r + 0.7152 * g + 0.0722 * b)\<bar> \<le> 1 / 10 ^ 12"
proof -
  define p1 where "p1 = fl (fl 0.2126 * r)"
  define p2 where "p2 = fl (fl 0.7152 * g)"
  define p3 where "p3 = fl (fl 0.0722 * b)"
  define s1 where "s1 = fl (p1 + p2)"
  have L: "lumSum r g b = fl (s1 + p3)"
    by (simp add: lumSum_def p1_def p2_def p3_def s1_def)
  have k1: "0 \<le> fl 0.2126" and k2: "0 \<le> fl 0.7152" and k3: "0 \<le> fl 0.0722"
    unfolding c1 c2 c3 by simp_all
  have e8: "(2::rat) powi (8 - 53) / 2 = 1 / 2 ^ 46" by simp
  have p8: "(2::rat) powi 8 = 256" by simp
  \<comment> \<open>the products\<close>
  have m1: "0 \<le> fl 0.2126 * r" "fl 0.2126 * r \<le> fl 0.2126 * 255"
    by (rule mult_nonneg_nonneg [OF k1 r(1)], rule mult_left_mono [OF r(2) k1])
  have m2: "0 \<le> fl 0.7152 * g" "fl 0.7152 * g \<le> fl 0.7152 * 255"
    by (rule mult_nonneg_nonneg [OF k2 g(1)], rule mult_left_mono [OF g(2) k2])
  have m3: "0 \<le> fl 0.0722 * b" "fl 0.0722 * b \<le> fl 0.0722 * 255"
    by (rule mult_nonneg_nonneg [OF k3 b(1)], rule mult_left_mono [OF b(2) k3])
  have a1: "\<bar>fl 0.2126 * r\<bar> < 2 powi 8" using m1 unfolding c1 by simp
  have a2: "\<bar>fl 0.7152 * g\<bar> < 2 powi 8" using m2 unfolding c2 by simp
  have a3: "\<bar>fl 0.0722 * b\<bar> < 2 powi 8" using m3 unfolding c3 by simp
  have q1: "\<bar>p1 - fl 0.2126 * r\<bar> \<le> 1 / 2 ^ 46"
    unfolding p1_def using fl_err_bound [OF a1] by (simp only: e8)
  have q2: "\<bar>p2 - fl 0.7152 * g\<bar> \<le> 1 / 2 ^ 46"
    unfolding p2_def using fl_err_bound [OF a2] by (simp only: e8)
  have q3: "\<bar>p3 - fl 0.0722 * b\<bar> \<le> 1 / 2 ^ 46"
    unfolding p3_def using fl_err_bound [OF a3] by (simp only: e8)
  have b1: "0 \<le> p1" "p1 \<le> 7629801456207397 / 2 ^ 47"
    unfolding p1_def using fl_nonneg [OF m1(1)] fl_mono [OF m1(2)] by (simp_all only: white_p1)
  have b2: "0 \<le> p2" "p2 \<le> 6416785044072824 / 2 ^ 45"
    unfolding p2_def using fl_nonneg [OF m2(1)] fl_mono [OF m2(2)] by (simp_all only: white_p2)
  have b3: "0 \<le> p3" "p3 \<le> 5182235796219888 / 2 ^ 48"
    unfolding p3_def using fl_nonneg [OF m3(1)] fl_mono [OF m3(2)] by (simp_all only: white_p3)
  \<comment> \<open>the constants\<close>
  have d1: "\<bar>fl 0.2126 * r - 0.2126 * r\<bar> \<le> 1 / 10 ^ 13"
  proof -
    have "fl 0.2126 - 0.2126 = 63 / 5629499534213120000"
      unfolding c1 by simp
    then show ?thesis using r by (rule scaled_err) simp
  qed
  have d2: "\<bar>fl 0.7152 * g - 0.7152 * g\<bar> \<le> 1 / 10 ^ 13"
  proof -
    have "fl 0.7152 - 0.7152 = - (299 / 5629499534213120000)"
      unfolding c2 by simp
    then show ?thesis using g by (rule scaled_err) simp
  qed
  have d3: "\<bar>fl 0.0722 * b - 0.0722 * b\<bar> \<le> 1 / 10 ^ 13"
  proof -
    have "fl 0.0722 - 0.0722 = 13 / 45035996273704960000"
      unfolding c3 by simp
    then show ?thesis using b by (rule scaled_err) simp
  qed
  \<comment> \<open>the sums\<close>
  have "0 \<le> p1 + p2" "p1 + p2 < 256" using b1 b2 by simp_all
  then have as1: "\<bar>p1 + p2\<bar> < 2 powi 8" by (simp only: p8)
  have w1: "\<bar>s1 - (p1 + p2)\<bar> \<le> 1 / 2 ^ 46"
    unfolding s1_def using fl_err_bound [OF as1] by (simp only: e8)
  have "p1 + p2 \<le> 7629801456207397 / 2 ^ 47 + 6416785044072824 / 2 ^ 45"
    using b1 b2 by linarith
  then have "s1 \<le> fl (7629801456207397 / 2 ^ 47 + 6416785044072824 / 2 ^ 45)"
    unfolding s1_def by (rule fl_mono)
  then have s1hi: "s1 \<le> 8324235408124673 / 2 ^ 45"
    using white_s1 by (simp only: white_p1 white_p2)
  have s1lo: "0 \<le> s1" unfolding s1_def using b1 b2 by (intro fl_nonneg) simp
  have "0 \<le> s1 + p3" "s1 + p3 < 256" using s1lo s1hi b3 by simp_all
  then have as2: "\<bar>s1 + p3\<bar> < 2 powi 8" by (simp only: p8)
  have w2: "\<bar>fl (s1 + p3) - (s1 + p3)\<bar> \<le> 1 / 2 ^ 46"
    using fl_err_bound [OF as2] by (simp only: e8)
  define x1 x2 x3 where "x1 = fl 0.2126 * r" and "x2 = fl 0.7152 * g" and "x3 = fl 0.0722 * b"
  define y1 y2 y3 :: rat where "y1 = 0.2126 * r" and "y2 = 0.7152 * g" and "y3 = 0.0722 * b"
  define E1 E2 :: rat where "E1 = 1 / 2 ^ 46" and "E2 = 1 / 10 ^ 13"
  have t: "5 * E1 + 3 * E2 \<le> 1 / 10 ^ 12" by (simp add: E1_def E2_def)
  note f = q1 q2 q3 d1 d2 d3 w1 w2
  note g = f [folded x1_def x2_def x3_def y1_def y2_def y3_def E1_def E2_def]
  have "\<bar>fl (s1 + p3) - (y1 + y2 + y3)\<bar> \<le> 5 * E1 + 3 * E2"
    using g by linarith
  then have "\<bar>fl (s1 + p3) - (y1 + y2 + y3)\<bar> \<le> 1 / 10 ^ 12"
    using t by linarith
  then show ?thesis
    unfolding L y1_def y2_def y3_def .
qed

text \<open>The rounded sum is an integer nearest to the exact weighted sum.\<close>

lemma calculateLuminance_nat_nearest:
  assumes "r \<le> 255" "g \<le> 255" "b \<le> 255"
  shows "\<exists>n. calculateLuminance (Num (rat_of_nat r)) (Num (rat_of_nat g)) (Num (rat_of_nat b))
               = Num (rat_of_int n)
           \<and> \<bar>10000 * n - (2126 * int r + 7152 * int g + 722 * int b)\<bar> \<le> 5000"
proof -
  define R G B where "R = rat_of_nat r" and "G = rat_of_nat g" and "B = rat_of_nat b"
  define n where "n = \<lfloor>lumSum R G B + 1 / 2\<rfloor>"
  define T where "T = 2126 * int r + 7152 * int g + 722 * int b"
  have R: "0 \<le> R" "R \<le> 255" and G: "0 \<le> G" "G \<le> 255" and B: "0 \<le> B" "B \<le> 255"
    using assms by (simp_all add: R_def G_def B_def rat_of_nat_le_255)
  have e: "\<bar>lumSum R G B - (0.2126 * R + 0.7152 * G + 0.0722 * B)\<bar> \<le> 1 / 10 ^ 12"
    by (rule lumSum_err [OF R G B])
  have T: "0.2126 * R + 0.7152 * G + 0.0722 * B = rat_of_int T / 10000"
    by (simp add: T_def R_def G_def B_def)
  have n1: "rat_of_int n \<le> lumSum R G B + 1 / 2" and n2: "lumSum R G B + 1 / 2 < rat_of_int n + 1"
    unfolding n_def by linarith+
  have p: "(1::rat) / 10 ^ 12 = 1 / 1000000000000" by simp
  have "\<bar>rat_of_int n - rat_of_int T / 10000\<bar> \<le> 1 / 2 + 1 / 1000000000000"
    using e n1 n2 unfolding T p by linarith
  then have "\<bar>10000 * rat_of_int n - rat_of_int T\<bar> < 5001" by linarith
  then have "\<bar>rat_of_int (10000 * n - T)\<bar> < 5001" by simp
  then have "\<bar>10000 * n - T\<bar> < 5001"
    by (simp only: flip: of_int_abs)
  then have "\<bar>10000 * n - T\<bar> \<le> 5000" by simp
  moreover have "calculateLuminance (Num R) (Num G) (Num B) = Num (rat_of_int n)"
    by (simp only: calculateLuminance_Num n_def)
  ultimately show ?thesis unfolding R_def G_def B_def T_def by blast
qed

lemma calculateLuminance_nat_eval:
  assumes "r \<le> 255" "g \<le> 255" "b \<le> 255"
    and "\<bar>10000 * m - (2126 * int r + 7152 * int g + 722 * int b)\<bar> < 5000"
  shows "calculateLuminance (Num (rat_of_nat r)) (Num (rat_of_nat g)) (Num (rat_of_nat b))
           = Num (rat_of_int m)"
proof -
  obtain n where n: "calculateLuminance (Num (rat_of_nat r)) (Num (rat_of_nat g)) (Num (rat_of_nat b))
               = Num (rat_of_int n)"
    and c: "\<bar>10000 * n - (2126 * int r + 7152 * int g + 722 * int b)\<bar> \<le> 5000"
    using calculateLuminance_nat_nearest [OF assms(1-3)] by blast
  have "n = m" using c assms(4) by linarith
  then show ?thesis using n by simp
qed

lemma calculateLuminance_nat_range:
  assumes "r \<le> 255" "g \<le> 255" "b \<le> 255"
  shows "\<exists>l::nat. calculateLuminance (Num (rat_of_nat r)) (Num (rat_of_nat g)) (Num (rat_of_nat b))
                     = Num (rat_of_nat l) \<and> l \<le> 255"
proof -
  define R G B where "R = rat_of_nat r" and "G = rat_of_nat g" and "B = rat_of_nat b"
  have R: "0 \<le> R" "R \<le> 255" and G: "0 \<le> G" "G \<le> 255" and B: "0 \<le> B" "B \<le> 255"
    using assms by (simp_all add: R_def G_def B_def rat_of_nat_le_255)
  let ?s = "lumSum R G B"
  have lo: "0 \<le> ?s" by (rule lumSum_nonneg [OF R(1) G(1) B(1)])
  have "?s \<le> lumSum 255 255 255" by (rule lumSum_mono [OF R(2) G(2) B(2)])
  then have hi: "?s + 1 / 2 < 256" unfolding white_s2 by simp
  have f0: "0 \<le> \<lfloor>?s + 1 / 2\<rfloor>" using lo by simp
  have f1: "\<lfloor>?s + 1 / 2\<rfloor> < 256" using hi by (simp add: floor_less_iff)
  have "rat_of_int \<lfloor>?s + 1 / 2\<rfloor> = rat_of_nat (nat \<lfloor>?s + 1 / 2\<rfloor>)"
    using f0 by (simp only: of_nat_nat)
  then have "calculateLuminance (Num R) (Num G) (Num B) = Num (rat_of_nat (nat \<lfloor>?s + 1 / 2\<rfloor>))"
    by (simp only: calculateLuminance_Num)
  moreover have "nat \<lfloor>?s + 1 / 2\<rfloor> \<le> 255"
    using f1 by linarith
  ultimately show ?thesis unfolding R_def G_def B_def by blast
qed

lemma calculateLuminance_range:
  "\<exists>l::nat. calculateLuminance (byte r) (byte g) (byte b) = Num (rat_of_nat l) \<and> l \<le> 255"
  unfolding byte_def
  by (rule calculateLuminance_nat_range [OF unat_byte_le unat_byte_le unat_byte_le])

lemma calculateLuminance_mono:
  assumes "r \<le> r'" "g \<le> g'" "b \<le> b'"
  shows "jle (calculateLuminance (byte r) (byte g) (byte b))
             (calculateLuminance (byte r') (byte g') (byte b'))"
proof -
  have "rat_of_nat (unat r) \<le> rat_of_nat (unat r')"
    and "rat_of_nat (unat g) \<le> rat_of_nat (unat g')"
    and "rat_of_nat (unat b) \<le> rat_of_nat (unat b')"
    using assms by (simp_all only: of_nat_le_iff word_le_nat_alt)
  then show ?thesis
    unfolding byte_def by (rule calculateLuminance_Num_mono)
qed

lemma calculateLuminance_nearest:
  "\<exists>n. calculateLuminance (byte r) (byte g) (byte b) = Num (rat_of_int n)
      \<and> \<bar>10000 * n - (2126 * int (unat r) + 7152 * int (unat g) + 722 * int (unat b))\<bar> \<le> 5000"
  unfolding byte_def
  by (rule calculateLuminance_nat_nearest [OF unat_byte_le unat_byte_le unat_byte_le])

lemma calculateLuminance_eval:
  assumes "\<bar>10000 * m - (2126 * int (unat r) + 7152 * int (unat g) + 722 * int (unat b))\<bar> < 5000"
  shows "calculateLuminance (byte r) (byte g) (byte b) = Num (rat_of_int m)"
  unfolding byte_def
  by (rule calculateLuminance_nat_eval [OF unat_byte_le unat_byte_le unat_byte_le assms])

text \<open>The value on given bytes, when the exact sum is not half-way between two
  integers.\<close>

lemma round_div_10000:
  fixes T :: nat
  assumes "T mod 10000 \<noteq> 5000"
  shows "\<bar>10000 * int ((T + 5000) div 10000) - int T\<bar> < 5000"
proof -
  define q r where "q = T div 10000" and "r = T mod 10000"
  have r: "r < 10000" by (simp add: r_def)
  have T: "T = 10000 * q + r" by (simp add: q_def r_def)
  consider "r < 5000" | "5000 < r" using assms r_def by linarith
  then show ?thesis
  proof cases
    case 1
    have "(T + 5000) div 10000 = q"
      by (rule div_nat_eqI) (use 1 r T in simp_all)
    then show ?thesis using 1 T by simp
  next
    case 2
    have "(T + 5000) div 10000 = Suc q"
      by (rule div_nat_eqI) (use 2 r T in simp_all)
    then show ?thesis using 2 r T by simp
  qed
qed

lemma calculateLuminance_nat_value:
  assumes "r \<le> 255" "g \<le> 255" "b \<le> 255"
    and "(2126 * r + 7152 * g + 722 * b) mod 10000 \<noteq> 5000"
  shows "calculateLuminance (Num (rat_of_nat r)) (Num (rat_of_nat g)) (Num (rat_of_nat b))
           = Num (rat_of_nat ((2126 * r + 7152 * g + 722 * b + 5000) div 10000))"
proof -
  define T where "T = 2126 * r + 7152 * g + 722 * b"
  define m where "m = (T + 5000) div 10000"
  have "T mod 10000 \<noteq> 5000" unfolding T_def by (rule assms(4))
  then have "\<bar>10000 * int m - int T\<bar> < 5000"
    unfolding m_def by (rule round_div_10000)
  then have "\<bar>10000 * int m - (2126 * int r + 7152 * int g + 722 * int b)\<bar> < 5000"
    by (simp add: T_def)
  then have "calculateLuminance (Num (rat_of_nat r)) (Num (rat_of_nat g)) (Num (rat_of_nat b))
           = Num (rat_of_int (int m))"
    by (rule calculateLuminance_nat_eval [OF assms(1-3)])
  then show ?thesis by (simp add: m_def T_def)
qed

lemma calculateLuminance_gray:
  assumes "numeral k \<le> (255::nat)"
  shows "calculateLuminance (Num (numeral k)) (Num (numeral k)) (Num (numeral k)) = Num (numeral k)"
proof -
  define n :: nat where "n = numeral k"
  have n: "n \<le> 255" using assms by (simp only: n_def)
  have "2126 * n + 7152 * n + 722 * n = 10000 * n" by simp
  then have m: "(2126 * n + 7152 * n + 722 * n) mod 10000 \<noteq> 5000"
    and d: "(2126 * n + 7152 * n + 722 * n + 5000) div 10000 = n"
    by simp_all
  have "calculateLuminance (Num (rat_of_nat n)) (Num (rat_of_nat n)) (Num (rat_of_nat n))
               = Num (rat_of_nat n)"
    using calculateLuminance_nat_value [OF n n n m] unfolding d .
  then show ?thesis by (simp add: n_def)
qed

text \<open>A tie of the exact sum: 0.7152 * 14 + 0.0722 * 76 = 15.5.\<close>

lemma tie_p2: "fl (fl 0.7152 * 14) = 5636705293616912 / 2 ^ 49"
  unfolding c2
  by (rule trans [OF fl_evalI [where e = 3 and n = 5636705293616912]]) simp_all

lemma tie_p3: "fl (fl 0.0722 * 76) = 6178037968826846 / 2 ^ 50"
  unfolding c3
  by (rule trans [OF fl_evalI [where e = 2 and n = 6178037968826846]]) simp_all

lemma tie_s1: "fl (fl (fl 0.2126 * 0) + fl (fl 0.7152 * 14)) = 5636705293616912 / 2 ^ 49"
  unfolding tie_p2 mult_zero_right fl_0 add_0_left
  by (rule trans [OF fl_evalI [where e = 3 and n = 5636705293616912]]) simp_all

lemma tie_s2: "lumSum 0 14 76 = 8725724278030335 / 2 ^ 49"
  unfolding lumSum_def tie_s1 tie_p3
  by (rule trans [OF fl_evalI [where e = 3 and n = 8725724278030335]]) simp_all

lemma calculateLuminance_tie: "calculateLuminance (Num 0) (Num 14) (Num 76) = Num 15"
  unfolding calculateLuminance_Num tie_s2 by simp

section \<open>Facts about the character ramp\<close>

lemma fold_snoc_map: "fold (\<lambda>i acc. acc @ [f i]) xs acc0 = acc0 @ map f xs"
  by (induction xs arbitrary: acc0) simp_all

lemma fold_append_concat_map: "fold (\<lambda>i acc. acc @ f i) xs acc0 = acc0 @ concat (map f xs)"
  by (induction xs arbitrary: acc0) simp_all

lemma rampIndex_Num:
  "rampIndex (Num l) len invert =
     Num (rat_of_int (if invert then int len - 1 - rampIndexInt l len else rampIndexInt l len))"
  by (simp add: rampIndex_def rampIndexInt_def Let_def min_def)

lemma rampIndexInt_range:
  assumes "0 < len"
  shows "0 \<le> rampIndexInt l len" and "rampIndexInt l len \<le> int len - 1"
proof -
  have "0 \<le> max 0 (min 255 l) / 255 * rat_of_nat len"
    by simp
  then have "0 \<le> \<lfloor>max 0 (min 255 l) / 255 * rat_of_nat len\<rfloor>"
    by (simp only: zero_le_floor)
  then show "0 \<le> rampIndexInt l len"
    using assms by (simp add: rampIndexInt_def)
  show "rampIndexInt l len \<le> int len - 1"
    by (simp add: rampIndexInt_def)
qed

lemma rampIndexInt_mono:
  assumes "l1 \<le> l2"
  shows "rampIndexInt l1 len \<le> rampIndexInt l2 len"
proof -
  have "max 0 (min 255 l1) \<le> max 0 (min 255 l2)"
    using assms by (simp add: max_def min_def)
  then have "max 0 (min 255 l1) / 255 * rat_of_nat len \<le> max 0 (min 255 l2) / 255 * rat_of_nat len"
    by (simp add: mult_right_mono divide_right_mono)
  then have "\<lfloor>max 0 (min 255 l1) / 255 * rat_of_nat len\<rfloor> \<le> \<lfloor>max 0 (min 255 l2) / 255 * rat_of_nat len\<rfloor>"
    by (rule floor_mono)
  then show ?thesis
    by (simp add: rampIndexInt_def min_def)
qed

lemma rampIndexInt_0: "0 < len \<Longrightarrow> rampIndexInt 0 len = 0"
  by (simp add: rampIndexInt_def)

lemma rampIndexInt_255: "rampIndexInt 255 len = int len - 1"
  by (simp add: rampIndexInt_def)

lemma str_at_nat: "i < length s \<Longrightarrow> str_at s (Num (rat_of_nat i)) = Str [s ! i]"
  by (simp add: str_at_def)

lemma charForLuminance_index:
  assumes "2 \<le> length characters"
  shows "\<exists>i < length characters.
           rampIndex (Num l) (length characters) invert = Num (rat_of_nat i)
           \<and> charForLuminance (Num l) characters invert = Str [characters ! i]"
proof -
  let ?n = "length characters"
  let ?k = "if invert then int ?n - 1 - rampIndexInt l ?n else rampIndexInt l ?n"
  have pos: "0 < ?n" using assms by linarith
  have k0: "0 \<le> ?k" and k1: "?k \<le> int ?n - 1"
    using rampIndexInt_range [OF pos, of l] by auto
  have lt: "nat ?k < ?n" using k0 k1 pos by linarith
  have "rat_of_int ?k = rat_of_nat (nat ?k)"
    using k0 by (simp only: of_nat_nat)
  then have idx: "rampIndex (Num l) ?n invert = Num (rat_of_nat (nat ?k))"
    by (simp only: rampIndex_Num)
  have "charForLuminance (Num l) characters invert = str_at characters (rampIndex (Num l) ?n invert)"
    using assms pos by (simp add: charForLuminance_def Let_def)
  then have "charForLuminance (Num l) characters invert = Str [characters ! nat ?k]"
    using lt by (simp only: idx str_at_nat)
  with idx lt show ?thesis by blast
qed

lemma rd_replicate: "0 \<le> i \<Longrightarrow> i < int n \<Longrightarrow> rd (replicate n v) i = byte v"
  by (simp add: rd_def)

lemma white_pixel_char:
  "to_jsstring (charForLuminance (calculateLuminance (byte 255) (byte 255) (byte 255))
     simple_characters False) = [64]"
  by (simp add: calculateLuminance_white_Num charForLuminance_def rampIndex_def str_at_def
      simple_characters_def to_jsstring_def)

lemma mapLuminance_map:
  "mapLuminance imageData characters invert =
     map (\<lambda>y. concat (map (\<lambda>x.
        to_jsstring (charForLuminance
          (calculateLuminance
             (rd (data imageData) ((int y * int (width imageData) + int x) * 4))
             (rd (data imageData) ((int y * int (width imageData) + int x) * 4 + 1))
             (rd (data imageData) ((int y * int (width imageData) + int x) * 4 + 2)))
          characters invert)) [0..<width imageData])) [0..<height imageData]"
  by (simp add: mapLuminance_def Let_def fold_snoc_map fold_append_concat_map)

lemma mapLuminance_const:
  assumes "\<And>x y. x < width imageData \<Longrightarrow> y < height imageData \<Longrightarrow>
     to_jsstring (charForLuminance
          (calculateLuminance
             (rd (data imageData) ((int y * int (width imageData) + int x) * 4))
             (rd (data imageData) ((int y * int (width imageData) + int x) * 4 + 1))
             (rd (data imageData) ((int y * int (width imageData) + int x) * 4 + 2)))
          characters invert) = c"
  shows "mapLuminance imageData characters invert =
           replicate (height imageData) (concat (replicate (width imageData) c))"
proof -
  have row: "concat (map (\<lambda>x.
        to_jsstring (charForLuminance
          (calculateLuminance
             (rd (data imageData) ((int y * int (width imageData) + int x) * 4))
             (rd (data imageData) ((int y * int (width imageData) + int x) * 4 + 1))
             (rd (data imageData) ((int y * int (width imageData) + int x) * 4 + 2)))
          characters invert)) [0..<width imageData]) = concat (replicate (width imageData) c)"
    if "y < height imageData" for y
  proof -
    have "map (\<lambda>x.
        to_jsstring (charForLuminance
          (calculateLuminance
             (rd (data imageData) ((int y * int (width imageData) + int x) * 4))
             (rd (data imageData) ((int y * int (width imageData) + int x) * 4 + 1))
             (rd (data imageData) ((int y * int (width imageData) + int x) * 4 + 2)))
          characters invert)) [0..<width imageData] = map (\<lambda>x. c) [0..<width imageData]"
      by (rule map_cong [OF refl], rule assms) (simp_all add: that)
    then show ?thesis by (simp add: map_replicate_const)
  qed
  have "mapLuminance imageData characters invert =
          map (\<lambda>y. concat (replicate (width imageData) c)) [0..<height imageData]"
    unfolding mapLuminance_map by (rule map_cong [OF refl], rule row) simp
  then show ?thesis by (simp add: map_replicate_const)
qed

lemma white_4x4:
  "mapLuminance \<lparr>width = 4, height = 4, data = replicate 64 255\<rparr>
     simple_characters False = replicate 4 (map of_char ''@@@@'')"
proof -
  have "mapLuminance \<lparr>width = 4, height = 4, data = replicate 64 255\<rparr>
     simple_characters False = replicate 4 (concat (replicate 4 [64]))"
    by (rule mapLuminance_const [where imageData = "\<lparr>width = 4, height = 4, data = replicate 64 255\<rparr>", simplified])
       (simp add: rd_def white_pixel_char del: byte_255)
  then show ?thesis by (simp add: numeral_eq_Suc)
qed

section \<open>Facts about the sub-pixel encoders\<close>

lemma subpixelOn_lumAt: "subpixelOn imageData threshold px py = jgt (lumAt imageData px py) threshold"
  by (simp add: subpixelOn_def lumAt_def)

lemma quadrantPattern_bits:
  "quadrantPattern imageData threshold charX charY =
     of_bool (subpixelOn imageData threshold (int charX * 2) (int charY * 2))
     + 2 * of_bool (subpixelOn imageData threshold (int charX * 2 + 1) (int charY * 2))
     + 4 * of_bool (subpixelOn imageData threshold (int charX * 2) (int charY * 2 + 1))
     + 8 * of_bool (subpixelOn imageData threshold (int charX * 2 + 1) (int charY * 2 + 1))"
  by (simp add: quadrantPattern_def positions_def subpixelOn_def Let_def)

lemma quadrantPattern_less: "quadrantPattern imageData threshold charX charY < 16"
  by (simp add: quadrantPattern_bits of_bool_def)

lemma braillePattern_bits:
  "braillePattern imageData threshold charX charY =
     of_bool (subpixelOn imageData threshold (int charX * 2) (int charY * 4))
     + 8 * of_bool (subpixelOn imageData threshold (int charX * 2 + 1) (int charY * 4))
     + 2 * of_bool (subpixelOn imageData threshold (int charX * 2) (int charY * 4 + 1))
     + 16 * of_bool (subpixelOn imageData threshold (int charX * 2 + 1) (int charY * 4 + 1))
     + 4 * of_bool (subpixelOn imageData threshold (int charX * 2) (int charY * 4 + 2))
     + 32 * of_bool (subpixelOn imageData threshold (int charX * 2 + 1) (int charY * 4 + 2))
     + 64 * of_bool (subpixelOn imageData threshold (int charX * 2) (int charY * 4 + 3))
     + 128 * of_bool (subpixelOn imageData threshold (int charX * 2 + 1) (int charY * 4 + 3))"
  by (simp add: braillePattern_def BRAILLE_DOT_MAP_def subpixelOn_def Let_def upt_rec)


lemma concat_map_singleton: "concat (map (\<lambda>x. [f x]) xs) = map f xs"
  by (induction xs) simp_all

lemma quadrant_glyph:
  "to_jsstring (str_at QUADRANT_CHARS
      (Num (rat_of_nat (quadrantPattern imageData threshold charX charY))))
     = [QUADRANT_CHARS ! quadrantPattern imageData threshold charX charY]"
proof -
  have "quadrantPattern imageData threshold charX charY < length QUADRANT_CHARS"
    using quadrantPattern_less [of imageData threshold charX charY]
    by (simp add: QUADRANT_CHARS_def)
  then show ?thesis
    by (simp only: str_at_nat) (simp add: to_jsstring_def)
qed

lemma encodeBlocks_map:
  "encodeBlocks imageData threshold =
     map (\<lambda>charY. map (\<lambda>charX. QUADRANT_CHARS ! quadrantPattern imageData threshold charX charY)
                     [0..<nat \<lceil>rat_of_nat (width imageData) / 2\<rceil>])
         [0..<nat \<lceil>rat_of_nat (height imageData) / 2\<rceil>]"
  by (simp only: encodeBlocks_def Let_def fold_snoc_map fold_append_concat_map quadrant_glyph
        concat_map_singleton append_Nil)

lemma encodeBlocks_cell:
  assumes "charX < nat \<lceil>rat_of_nat (width imageData) / 2\<rceil>"
    and "charY < nat \<lceil>rat_of_nat (height imageData) / 2\<rceil>"
  shows "encodeBlocks imageData threshold ! charY ! charX
           = QUADRANT_CHARS ! quadrantPattern imageData threshold charX charY"
  using assms by (simp add: encodeBlocks_map)

lemma encodeBraille_map:
  "encodeBraille imageData threshold =
     map (\<lambda>charY. map (\<lambda>charX. 0x2800 + braillePattern imageData threshold charX charY)
                     [0..<nat \<lceil>rat_of_nat (width imageData) / 2\<rceil>])
         [0..<nat \<lceil>rat_of_nat (height imageData) / 4\<rceil>]"
  by (simp only: encodeBraille_def Let_def fold_snoc_map append_Nil)

lemma encodeBraille_cell:
  assumes "charX < nat \<lceil>rat_of_nat (width imageData) / 2\<rceil>"
    and "charY < nat \<lceil>rat_of_nat (height imageData) / 4\<rceil>"
  shows "encodeBraille imageData threshold ! charY ! charX
           = 0x2800 + braillePattern imageData threshold charX charY"
  using assms by (simp add: encodeBraille_map)

lemma jle_not_jgt: "jle a b \<Longrightarrow> \<not> jgt a b"
  by (cases a; cases b) simp_all


lemma jle_not_on: "jle (lumAt imageData px py) threshold \<Longrightarrow> \<not> subpixelOn imageData threshold px py"
  by (simp add: subpixelOn_lumAt jle_not_jgt)

section \<open>Facts about dithering\<close>

lemma length_wr [simp]: "length (wr d i v) = length d"
  by (simp add: wr_def)

lemma nth_wr_neq: "int j \<noteq> i \<Longrightarrow> wr d i v ! j = d ! j"
  by (auto simp add: wr_def)

lemma nth_wr_eq: "0 \<le> i \<Longrightarrow> i < int (length d) \<Longrightarrow> wr d i v ! nat i = ToUint8Clamp v"
  by (simp add: wr_def)

lemma ToUint8Clamp_0 [simp]: "ToUint8Clamp (Num 0) = 0"
  by (simp add: ToUint8Clamp_def)

lemma ToUint8Clamp_255 [simp]: "ToUint8Clamp (Num 255) = 255"
  by (simp add: ToUint8Clamp_def)

lemma channel_cases_int:
  fixes J Q R n :: int
  assumes "J = 4 * Q + R" "0 \<le> R" "R < 4"
  shows "(Q \<noteq> n \<or> R = 3) \<longrightarrow> J \<noteq> n * 4 \<and> J \<noteq> n * 4 + 1 \<and> J \<noteq> n * 4 + 2"
    and "Q = n \<and> R \<noteq> 3 \<longrightarrow> J = n * 4 \<or> J = n * 4 + 1 \<or> J = n * 4 + 2"
  using assms by presburger+

lemma index_split:
  "int j = 4 * (int j div 4) + int (j mod 4)" "0 \<le> int (j mod 4)" "int (j mod 4) < 4"
  by (simp_all add: zmod_int)

lemma wr3_other:
  assumes "int j div 4 \<noteq> n \<or> j mod 4 = 3"
  shows "wr (wr (wr d (n * 4) a) (n * 4 + 1) b) (n * 4 + 2) c ! j = d ! j"
proof -
  have "int j div 4 \<noteq> n \<or> int (j mod 4) = 3" using assms by auto
  then have "int j \<noteq> n * 4" "int j \<noteq> n * 4 + 1" "int j \<noteq> n * 4 + 2"
    using channel_cases_int(1) [OF index_split, of j n] by blast+
  then show ?thesis by (simp add: nth_wr_neq)
qed

lemma wr3_here:
  assumes "int j div 4 = n" "j mod 4 \<noteq> 3" "j < length d"
  shows "wr (wr (wr d (n * 4) a) (n * 4 + 1) a) (n * 4 + 2) a ! j = ToUint8Clamp a"
proof -
  have "int (j mod 4) \<noteq> 3" using assms(2) by linarith
  then consider "int j = n * 4" | "int j = n * 4 + 1" | "int j = n * 4 + 2"
    using channel_cases_int(2) [OF index_split, of j n] assms(1) by blast
  then show ?thesis
  proof cases
    case 1
    then have j: "j = nat (n * 4)" by simp
    have b: "0 \<le> n * 4" "n * 4 < int (length d)" using assms(3) 1 by linarith+
    have "int j \<noteq> n * 4 + 1" "int j \<noteq> n * 4 + 2" using 1 by simp_all
    then have "wr (wr (wr d (n * 4) a) (n * 4 + 1) a) (n * 4 + 2) a ! j = wr d (n * 4) a ! j"
      by (simp add: nth_wr_neq)
    also have "\<dots> = ToUint8Clamp a"
      unfolding j using b by (simp add: nth_wr_eq)
    finally show ?thesis .
  next
    case 2
    then have j: "j = nat (n * 4 + 1)" by simp
    have b: "0 \<le> n * 4 + 1" "n * 4 + 1 < int (length d)" using assms(3) 2 by linarith+
    have "int j \<noteq> n * 4 + 2" using 2 by simp
    then have "wr (wr (wr d (n * 4) a) (n * 4 + 1) a) (n * 4 + 2) a ! j
                 = wr (wr d (n * 4) a) (n * 4 + 1) a ! j"
      by (simp add: nth_wr_neq)
    also have "\<dots> = ToUint8Clamp a"
      unfolding j using b by (simp add: nth_wr_eq)
    finally show ?thesis .
  next
    case 3
    then have j: "j = nat (n * 4 + 2)" by simp
    have b: "0 \<le> n * 4 + 2" "n * 4 + 2 < int (length d)" using assms(3) 3 by linarith+
    show ?thesis
      unfolding j using b by (simp add: nth_wr_eq)
  qed
qed

lemma nbr_gt:
  fixes x y w nx ny :: int
  assumes "0 \<le> x" "x < w" "0 \<le> nx" "y < ny \<or> (y = ny \<and> x < nx)"
  shows "y * w + x < ny * w + nx"
proof (cases "y < ny")
  case True
  have "0 \<le> w" using assms(1,2) by linarith
  from \<open>y < ny\<close> have "y + 1 \<le> ny" by simp
  then have "(y + 1) * w \<le> ny * w" using \<open>0 \<le> w\<close> by (rule mult_right_mono)
  then have "y * w + w \<le> ny * w" by (simp add: algebra_simps)
  then show ?thesis using assms(2,3) by linarith
next
  case False
  then show ?thesis using assms by auto
qed


lemma length_fs_distribute [simp]:
  "length (fs_distribute w h x y eR eG eB dx dy f d) = length d"
  by (simp add: fs_distribute_def Let_def)

lemma fs_distribute_other:
  "int j div 4 \<noteq> (y + dy) * w + (x + dx) \<or> j mod 4 = 3 \<Longrightarrow>
     fs_distribute w h x y eR eG eB dx dy f d ! j = d ! j"
  by (simp add: fs_distribute_def Let_def wr3_other del: distrib_right_numeral distrib_left_numeral)

lemma fs_distribute_earlier:
  assumes "0 \<le> x" "x < w" "0 < dy \<or> (dy = 0 \<and> 0 < dx)" "int j div 4 \<le> y * w + x"
  shows "fs_distribute w h x y eR eG eB dx dy f d ! j = d ! j"
proof (cases "x + dx \<ge> 0 \<and> x + dx < w \<and> y + dy \<ge> 0 \<and> y + dy < h")
  case True
  have "y * w + x < (y + dy) * w + (x + dx)"
    using assms(1-3) True by (intro nbr_gt) auto
  then show ?thesis using assms(4) by (intro fs_distribute_other) linarith
next
  case False
  then show ?thesis by (simp only: fs_distribute_def Let_def if_False)
qed

lemma length_atkinson_distribute [simp]:
  "length (atkinson_distribute w h x y e dx dy d) = length d"
  by (simp add: atkinson_distribute_def Let_def)

lemma atkinson_distribute_other:
  "int j div 4 \<noteq> (y + dy) * w + (x + dx) \<or> j mod 4 = 3 \<Longrightarrow>
     atkinson_distribute w h x y e dx dy d ! j = d ! j"
  by (simp add: atkinson_distribute_def Let_def wr3_other del: distrib_right_numeral distrib_left_numeral)

lemma atkinson_distribute_earlier:
  assumes "0 \<le> x" "x < w" "0 < dy \<or> (dy = 0 \<and> 0 < dx)" "int j div 4 \<le> y * w + x"
  shows "atkinson_distribute w h x y e dx dy d ! j = d ! j"
proof (cases "x + dx \<ge> 0 \<and> x + dx < w \<and> y + dy \<ge> 0 \<and> y + dy < h")
  case True
  have "y * w + x < (y + dy) * w + (x + dx)"
    using assms(1-3) True by (intro nbr_gt) auto
  then show ?thesis using assms(4) by (intro atkinson_distribute_other) linarith
next
  case False
  then show ?thesis by (simp only: atkinson_distribute_def Let_def if_False)
qed

lemma length_fs_pixel [simp]: "length (fs_pixel w h y x d) = length d"
  by (simp add: fs_pixel_def Let_def)

lemma fs_pixel_alpha: "j mod 4 = 3 \<Longrightarrow> fs_pixel w h y x d ! j = d ! j"
  by (simp add: fs_pixel_def Let_def fs_distribute_other wr3_other del: distrib_right_numeral distrib_left_numeral)

lemma fs_pixel_earlier:
  "0 \<le> x \<Longrightarrow> x < w \<Longrightarrow> int j div 4 < y * w + x \<Longrightarrow> fs_pixel w h y x d ! j = d ! j"
  by (simp add: fs_pixel_def Let_def fs_distribute_earlier wr3_other del: distrib_right_numeral distrib_left_numeral)

lemma quantized: "ToUint8Clamp (if c then Num 255 else Num 0) = 0
   \<or> ToUint8Clamp (if c then Num 255 else Num 0) = 255"
  by simp

lemma fs_pixel_here:
  assumes "0 \<le> x" "x < w" "int j div 4 = y * w + x" "j mod 4 \<noteq> 3" "j < length d"
  shows "fs_pixel w h y x d ! j = 0 \<or> fs_pixel w h y x d ! j = 255"
  using assms quantized
  by (simp add: fs_pixel_def Let_def fs_distribute_earlier wr3_here del: distrib_right_numeral distrib_left_numeral)

lemma length_atkinson_pixel [simp]: "length (atkinson_pixel w h y x d) = length d"
  by (simp add: atkinson_pixel_def Let_def)

lemma atkinson_pixel_alpha: "j mod 4 = 3 \<Longrightarrow> atkinson_pixel w h y x d ! j = d ! j"
  by (simp add: atkinson_pixel_def Let_def atkinson_distribute_other wr3_other del: distrib_right_numeral distrib_left_numeral)

lemma atkinson_pixel_earlier:
  "0 \<le> x \<Longrightarrow> x < w \<Longrightarrow> int j div 4 < y * w + x \<Longrightarrow> atkinson_pixel w h y x d ! j = d ! j"
  by (simp add: atkinson_pixel_def Let_def atkinson_distribute_earlier wr3_other del: distrib_right_numeral distrib_left_numeral)

lemma atkinson_pixel_here:
  assumes "0 \<le> x" "x < w" "int j div 4 = y * w + x" "j mod 4 \<noteq> 3" "j < length d"
  shows "atkinson_pixel w h y x d ! j = 0 \<or> atkinson_pixel w h y x d ! j = 255"
  using assms quantized
  by (simp add: atkinson_pixel_def Let_def atkinson_distribute_earlier wr3_here del: distrib_right_numeral distrib_left_numeral)

lemma length_bayer_pixel [simp]: "length (bayer_pixel w y x d) = length d"
  by (simp add: bayer_pixel_def Let_def)

lemma bayer_pixel_other:
  "int j div 4 \<noteq> y * w + x \<or> j mod 4 = 3 \<Longrightarrow> bayer_pixel w y x d ! j = d ! j"
  by (simp add: bayer_pixel_def Let_def wr3_other del: distrib_right_numeral distrib_left_numeral)

lemma bayer_pixel_here:
  assumes "int j div 4 = y * w + x" "j mod 4 \<noteq> 3" "j < length d"
  shows "bayer_pixel w y x d ! j = 0 \<or> bayer_pixel w y x d ! j = 255"
  using assms quantized
  by (simp add: bayer_pixel_def Let_def wr3_here del: distrib_right_numeral distrib_left_numeral)

lemma fold_upt_inv:
  assumes "P 0 s" and "\<And>i s. i < n \<Longrightarrow> P i s \<Longrightarrow> P (Suc i) (f i s)"
  shows "P n (fold f [0..<n] s)"
  using assms
proof (induction n)
  case 0
  then show ?case by simp
next
  case (Suc n)
  have "P n (fold f [0..<n] s)"
    using Suc.prems by (intro Suc.IH) simp_all
  then have "P (Suc n) (f n (fold f [0..<n] s))"
    by (intro Suc.prems(2)) simp_all
  then show ?case by simp
qed

lemma dither_inv_step:
  fixes f :: "nat \<Rightarrow> nat \<Rightarrow> u8array \<Rightarrow> u8array"
  assumes len: "\<And>d. length (f y x d) = length d"
    and alpha: "\<And>d j. j mod 4 = 3 \<Longrightarrow> f y x d ! j = d ! j"
    and earlier: "\<And>d j. j div 4 < y * w + x \<Longrightarrow> f y x d ! j = d ! j"
    and here: "\<And>d j. j div 4 = y * w + x \<Longrightarrow> j mod 4 \<noteq> 3 \<Longrightarrow> j < length d \<Longrightarrow>
                 f y x d ! j = 0 \<or> f y x d ! j = 255"
    and inv: "dither_inv d0 (y * w + x) d"
  shows "dither_inv d0 (y * w + Suc x) (f y x d)"
proof -
  have l: "length d = length d0" using inv by (simp add: dither_inv_def)
  have "f y x d ! j = d0 ! j" if "j < length d0" "j mod 4 = 3" for j
    using that inv alpha [of j d] by (simp add: dither_inv_def)
  moreover have "f y x d ! j = 0 \<or> f y x d ! j = 255"
    if "j < length d0" "j mod 4 \<noteq> 3" "j div 4 < y * w + Suc x" for j
  proof (cases "j div 4 < y * w + x")
    case True
    then show ?thesis using that inv earlier [of j d] by (simp add: dither_inv_def)
  next
    case False
    then have "j div 4 = y * w + x" using that(3) by simp
    then show ?thesis using that l by (intro here) simp_all
  qed
  ultimately show ?thesis using l len [of d] by (simp add: dither_inv_def)
qed

lemma loops_inv:
  fixes f :: "nat \<Rightarrow> nat \<Rightarrow> u8array \<Rightarrow> u8array"
  assumes len: "\<And>y x d. length (f y x d) = length d"
    and alpha: "\<And>y x d j. j mod 4 = 3 \<Longrightarrow> f y x d ! j = d ! j"
    and earlier: "\<And>y x d j. x < w \<Longrightarrow> j div 4 < y * w + x \<Longrightarrow> f y x d ! j = d ! j"
    and here: "\<And>y x d j. x < w \<Longrightarrow> j div 4 = y * w + x \<Longrightarrow> j mod 4 \<noteq> 3 \<Longrightarrow> j < length d \<Longrightarrow>
                 f y x d ! j = 0 \<or> f y x d ! j = 255"
  shows "dither_inv d0 (h * w) (fold (\<lambda>y. fold (\<lambda>x. f y x) [0..<w]) [0..<h] d0)"
proof (rule fold_upt_inv [where P = "\<lambda>y. dither_inv d0 (y * w)"])
  show "dither_inv d0 (0 * w) d0" by (simp add: dither_inv_def)
next
  fix y d
  assume "dither_inv d0 (y * w) d"
  then have "dither_inv d0 (y * w + 0) d" by simp
  then have "dither_inv d0 (y * w + w) (fold (\<lambda>x. f y x) [0..<w] d)"
    by (rule fold_upt_inv [where P = "\<lambda>x. dither_inv d0 (y * w + x)"])
       (rule dither_inv_step, simp_all add: len alpha earlier here)
  then show "dither_inv d0 (Suc y * w) (fold (\<lambda>x. f y x) [0..<w] d)"
    by (simp add: add.commute)
qed

lemma index_nat_int:
  "int j div 4 < int y * int w + int x \<longleftrightarrow> j div 4 < y * w + x"
  "int j div 4 = int y * int w + int x \<longleftrightarrow> j div 4 = y * w + x"
proof -
  have "int j div 4 = int (j div 4)" by (simp add: zdiv_int)
  moreover have "int y * int w + int x = int (y * w + x)" by simp
  ultimately show "int j div 4 < int y * int w + int x \<longleftrightarrow> j div 4 < y * w + x"
    "int j div 4 = int y * int w + int x \<longleftrightarrow> j div 4 = y * w + x"
    by (simp_all only: of_nat_less_iff of_nat_eq_iff)
qed

lemma fs_loops_inv: "dither_inv d (h * w) (fs_loops w h d)"
  unfolding fs_loops_def
  by (rule loops_inv)
     (simp_all add: fs_pixel_alpha fs_pixel_earlier fs_pixel_here index_nat_int)

lemma atkinson_loops_inv: "dither_inv d (h * w) (atkinson_loops w h d)"
  unfolding atkinson_loops_def
  by (rule loops_inv)
     (simp_all add: atkinson_pixel_alpha atkinson_pixel_earlier atkinson_pixel_here index_nat_int)

lemma bayer_loops_inv: "dither_inv d (h * w) (bayer_loops w h d)"
  unfolding bayer_loops_def
  by (rule loops_inv)
     (simp_all add: bayer_pixel_other bayer_pixel_here index_nat_int)

lemma dither_inv_pixels:
  assumes "dither_inv d0 (h * w) d" "length d0 = 4 * w * h" "p < w * h"
  shows "(d ! (4 * p) = 0 \<or> d ! (4 * p) = 255)
       \<and> (d ! (4 * p + 1) = 0 \<or> d ! (4 * p + 1) = 255)
       \<and> (d ! (4 * p + 2) = 0 \<or> d ! (4 * p + 2) = 255)
       \<and> d ! (4 * p + 3) = d0 ! (4 * p + 3)"
proof -
  have lt: "4 * p < length d0" "4 * p + 1 < length d0" "4 * p + 2 < length d0"
    "4 * p + 3 < length d0"
    using assms(2,3) by simp_all
  have pw: "p < h * w" using assms(3) by (simp add: mult.commute)
  have m: "(4 * p) mod 4 \<noteq> 3" "(4 * p + 1) mod 4 \<noteq> 3" "(4 * p + 2) mod 4 \<noteq> 3"
    "(4 * p + 3) mod 4 = 3"
    by presburger+
  have dv: "(4 * p) div 4 = p" "(4 * p + 1) div 4 = p" "(4 * p + 2) div 4 = p"
    by presburger+
  show ?thesis
    using assms(1) lt m dv pw unfolding dither_inv_def by metis
qed

lemma new_ImageData_ok:
  assumes "a < length hp" "0 < w" "0 < h" "length (hp ! a) = 4 * w * h"
  shows "new_ImageData hp a w h = Inr \<lparr>width = w, height = h, data = a\<rparr>"
proof -
  have "4 * w * h = (w * h) * 4" by simp
  then have l: "length (hp ! a) = (w * h) * 4" using assms(4) by simp
  have "length (hp ! a) \<noteq> 0" using assms(2,3) l by simp
  moreover have "length (hp ! a) mod 4 = 0" using l by simp
  moreover have "length (hp ! a) div 4 = w * h" using l by simp
  ultimately show ?thesis using assms(2) by (simp add: new_ImageData_def Let_def)
qed

lemma dither_heap:
  assumes "data img < length hp" "wf_image (deref hp img)"
    and inv: "\<And>d. dither_inv d (height img * width img) (loops (width img) (height img) d)"
  shows "(let (a, hp1) = new_Uint8ClampedArray hp (hp ! data img);
              hp2 = hp1[a := loops (width img) (height img) (hp1 ! a)]
          in case new_ImageData hp2 a (width img) (height img) of
               Inl e \<Rightarrow> Inl e
             | Inr out \<Rightarrow> Inr (hp2, out))
         = Inr (hp @ [loops (width img) (height img) (hp ! data img)],
                \<lparr>width = width img, height = height img, data = length hp\<rparr>)"
    and "dithered hp img (hp @ [loops (width img) (height img) (hp ! data img)])
           \<lparr>width = width img, height = height img, data = length hp\<rparr>"
proof -
  let ?src = "hp ! data img"
  let ?out = "loops (width img) (height img) ?src"
  have wf: "0 < width img" "0 < height img" "length ?src = 4 * width img * height img"
    using assms(2) by (simp_all add: wf_image_def deref_def)
  have i: "dither_inv ?src (height img * width img) ?out" by (rule inv)
  then have len: "length ?out = 4 * width img * height img"
    using wf(3) by (simp add: dither_inv_def)
  have "new_ImageData (hp @ [?out]) (length hp) (width img) (height img)
          = Inr \<lparr>width = width img, height = height img, data = length hp\<rparr>"
    using wf(1,2) len by (intro new_ImageData_ok) simp_all
  then show "(let (a, hp1) = new_Uint8ClampedArray hp (hp ! data img);
              hp2 = hp1[a := loops (width img) (height img) (hp1 ! a)]
          in case new_ImageData hp2 a (width img) (height img) of
               Inl e \<Rightarrow> Inl e
             | Inr out \<Rightarrow> Inr (hp2, out))
         = Inr (hp @ [?out], \<lparr>width = width img, height = height img, data = length hp\<rparr>)"
    by (simp add: new_Uint8ClampedArray_def)
  show "dithered hp img (hp @ [?out]) \<lparr>width = width img, height = height img, data = length hp\<rparr>"
    using dither_inv_pixels [OF i wf(3)] len wf(3)
    by (simp add: dithered_def nth_append)
qed

lemma rd_nat: "i < length d \<Longrightarrow> rd d (int i) = byte (d ! i)"
  by (simp add: rd_def)

lemma rd_wr_neq: "i \<noteq> i' \<Longrightarrow> rd (wr d i v) i' = rd d i'"
  by (auto simp add: rd_def wr_def nth_list_update)

lemma nth_wr: "j < length d \<Longrightarrow> wr d i v ! j = (if int j = i then ToUint8Clamp v else d ! j)"
  by (auto simp add: wr_def)

lemma pixel_coords:
  fixes w q x y :: nat
  assumes "x < w"
  shows "q = y * w + x \<longleftrightarrow> q mod w = x \<and> q div w = y"
  using assms by (auto simp add: div_mult_self3)

lemma px_write_nth:
  fixes n :: nat
  assumes "j < length d"
  shows "wr (wr (wr d (int (4 * n)) a) (int (4 * n) + 1) b) (int (4 * n) + 2) c ! j =
           (if j div 4 = n \<and> j mod 4 = 0 then ToUint8Clamp a
            else if j div 4 = n \<and> j mod 4 = 1 then ToUint8Clamp b
            else if j div 4 = n \<and> j mod 4 = 2 then ToUint8Clamp c
            else d ! j)"
proof -
  have "j div 4 = n \<and> j mod 4 = 0 \<longleftrightarrow> j = 4 * n"
    "j div 4 = n \<and> j mod 4 = 1 \<longleftrightarrow> j = 4 * n + 1"
    "j div 4 = n \<and> j mod 4 = 2 \<longleftrightarrow> j = 4 * n + 2"
    by presburger+
  moreover have "int (4 * n) + 1 = int (4 * n + 1)" "int (4 * n) + 2 = int (4 * n + 2)"
    by simp_all
  ultimately show ?thesis using assms by (auto simp add: nth_wr)
qed

lemma px_write_rd:
  fixes n :: nat
  shows "rd (wr d (int (4 * n)) a) (int (4 * n) + 1) = rd d (int (4 * n) + 1)"
    and "rd (wr (wr d (int (4 * n)) a) (int (4 * n) + 1) b) (int (4 * n) + 2)
           = rd d (int (4 * n) + 2)"
  by (simp_all add: rd_wr_neq)

lemma px_rd:
  fixes n :: nat
  assumes "4 * n + 2 < length d"
  shows "rd d (int (4 * n)) = byte (d ! (4 * n))"
    and "rd d (int (4 * n) + 1) = byte (d ! (4 * n + 1))"
    and "rd d (int (4 * n) + 2) = byte (d ! (4 * n + 2))"
proof -
  have e: "int (4 * n) + 1 = int (4 * n + 1)" "int (4 * n) + 2 = int (4 * n + 2)"
    by simp_all
  show "rd d (int (4 * n)) = byte (d ! (4 * n))"
    by (rule rd_nat) (use assms in linarith)
  show "rd d (int (4 * n) + 1) = byte (d ! (4 * n + 1))"
    unfolding e by (rule rd_nat) (use assms in linarith)
  show "rd d (int (4 * n) + 2) = byte (d ! (4 * n + 2))"
    unfolding e by (rule rd_nat) (use assms in linarith)
qed

lemma pixel_index_less:
  fixes w h x y :: nat
  assumes "x < w" "y < h"
  shows "y * w + x < w * h"
proof -
  have "y * w + x < y * w + w" using assms(1) by simp
  also have "\<dots> = Suc y * w" by simp
  also have "\<dots> \<le> h * w" using assms(2) by (intro mult_le_mono1) simp
  finally show ?thesis by (simp add: mult.commute)
qed

lemma fs_distribute_nth:
  fixes w h x y j :: nat
  assumes len: "length d = 4 * w * h" and j: "j < length d"
  shows "fs_distribute (int w) (int h) (int x) (int y) eR eG eB dx dy f d ! j =
     (if j mod 4 \<noteq> 3 \<and> int ((j div 4) mod w) = int x + dx \<and> int ((j div 4) div w) = int y + dy
      then clamp_byte (jadd (byte (d ! j))
                        (jmul (if j mod 4 = 0 then eR else if j mod 4 = 1 then eG else eB) f))
      else d ! j)"
proof -
  let ?q = "j div 4"
  have qlt: "?q < w * h" using len j by auto
  then have wpos: "0 < w" by (cases w) auto
  have qm: "?q mod w < w" using wpos by simp
  have qd: "?q div w < h" using qlt by (simp add: less_mult_imp_div_less mult.commute)
  show ?thesis
  proof (cases "int x + dx \<ge> 0 \<and> int x + dx < int w \<and> int y + dy \<ge> 0 \<and> int y + dy < int h")
    case False
    then have "\<not> (int (?q mod w) = int x + dx \<and> int (?q div w) = int y + dy)"
      using qm qd by auto
    moreover have "fs_distribute (int w) (int h) (int x) (int y) eR eG eB dx dy f d = d"
      using False by (simp only: fs_distribute_def Let_def if_False)
    ultimately show ?thesis by auto
  next
    case True
    define nx where "nx = nat (int x + dx)"
    define ny where "ny = nat (int y + dy)"
    have nx: "int x + dx = int nx" "nx < w" and ny: "int y + dy = int ny" "ny < h"
      using True by (auto simp add: nx_def ny_def)
    have R: "0 \<le> int nx" "int nx < int w" "0 \<le> int ny" "int ny < int h"
      using nx(2) ny(2) by simp_all
    define n where "n = ny * w + nx"
    have nlt: "n < w * h"
      unfolding n_def by (rule pixel_index_less [OF nx(2) ny(2)])
    have idx: "(int ny * int w + int nx) * 4 = int (4 * n)"
      by (simp add: n_def)
    have inb: "4 * n + 2 < length d"
      using nlt len by simp
    have cond: "(int (?q mod w) = int x + dx \<and> int (?q div w) = int y + dy) \<longleftrightarrow> ?q = n"
      unfolding nx(1) ny(1) n_def using pixel_coords [OF nx(2), of ?q ny] by auto
    have c: "j mod 4 = 0 \<or> j mod 4 = 1 \<or> j mod 4 = 2 \<or> j mod 4 = 3" by presburger
    have dj: "d ! j = d ! (4 * n + j mod 4)" if "?q = n"
      using that by (metis mult_div_mod_eq)
    have eq: "fs_distribute (int w) (int h) (int x) (int y) eR eG eB dx dy f d =
        wr (wr (wr d (int (4 * n))
                  (Math_max (Num 0) (Math_min (Num 255) (jadd (byte (d ! (4 * n))) (jmul eR f)))))
              (int (4 * n) + 1)
                  (Math_max (Num 0) (Math_min (Num 255) (jadd (byte (d ! (4 * n + 1))) (jmul eG f)))))
           (int (4 * n) + 2)
                  (Math_max (Num 0) (Math_min (Num 255) (jadd (byte (d ! (4 * n + 2))) (jmul eB f))))"
      by (simp only: fs_distribute_def Let_def nx(1) ny(1) R simp_thms if_True idx px_write_rd
            px_rd [OF inb])
    show ?thesis
      unfolding eq px_write_nth [OF j] cond clamp_byte_def
      using c dj by auto
  qed
qed

lemma wr3_nth:
  fixes k :: nat
  assumes "j < length d"
  shows "wr (wr (wr d (int (4 * k)) a) (int (4 * k) + 1) a) (int (4 * k) + 2) a ! j =
           (if j div 4 = k \<and> j mod 4 \<noteq> 3 then ToUint8Clamp a else d ! j)"
proof -
  have "j div 4 = k \<and> j mod 4 \<noteq> 3 \<longleftrightarrow> j = 4 * k \<or> j = 4 * k + 1 \<or> j = 4 * k + 2"
    by presburger
  moreover have "int (4 * k) + 1 = int (4 * k + 1)" "int (4 * k) + 2 = int (4 * k + 2)"
    by simp_all
  ultimately show ?thesis using assms by (auto simp add: nth_wr)
qed

lemma fs_factors:
  "jdiv (Num 7) (Num 16) = Num (7 / 16)" "jdiv (Num 3) (Num 16) = Num (3 / 16)"
  "jdiv (Num 5) (Num 16) = Num (5 / 16)" "jdiv (Num 1) (Num 16) = Num (1 / 16)"
  by simp_all

lemma fs_pixel_nth:
  fixes w h x y j :: nat
  assumes len: "length d = 4 * w * h" and j: "j < length d" and x: "x < w" and y: "y < h"
  shows "fs_pixel (int w) (int h) (int y) (int x) d ! j = fs_step_spec w h y x d ! j"
proof -
  define k where "k = y * w + x"
  define px where "px = (j div 4) mod w"
  define py where "py = (j div 4) div w"
  define new where "new = fs_quantize d k"
  define eR where "eR = jsub (byte (d ! (4 * k))) new"
  define eG where "eG = jsub (byte (d ! (4 * k + 1))) new"
  define eB where "eB = jsub (byte (d ! (4 * k + 2))) new"
  define e where "e = (if j mod 4 = 0 then eR else if j mod 4 = 1 then eG else eB)"
  define D3 where "D3 = wr (wr (wr d (int (4 * k)) new) (int (4 * k) + 1) new) (int (4 * k) + 2) new"
  define D4 where "D4 = fs_distribute (int w) (int h) (int x) (int y) eR eG eB 1 0 (Num (7 / 16)) D3"
  define D5 where "D5 = fs_distribute (int w) (int h) (int x) (int y) eR eG eB (- 1) 1 (Num (3 / 16)) D4"
  define D6 where "D6 = fs_distribute (int w) (int h) (int x) (int y) eR eG eB 0 1 (Num (5 / 16)) D5"
  define D7 where "D7 = fs_distribute (int w) (int h) (int x) (int y) eR eG eB 1 1 (Num (1 / 16)) D6"
  have klt: "k < w * h"
  proof -
    have "y * w + x < y * w + w" using x by simp
    also have "\<dots> = Suc y * w" by simp
    also have "\<dots> \<le> h * w" using y by (intro mult_le_mono1) simp
    finally show ?thesis by (simp add: mult.commute k_def)
  qed
  have idx: "(int y * int w + int x) * 4 = int (4 * k)"
    by (simp add: k_def)
  have inb: "4 * k + 2 < length d"
    using klt len by simp
  note old = px_rd [OF inb]
  have lhs: "fs_pixel (int w) (int h) (int y) (int x) d = D7"
    unfolding fs_pixel_def Let_def idx old fs_factors D7_def D6_def D5_def D4_def D3_def
      eR_def eG_def eB_def new_def fs_quantize_def
    by (rule refl)
  have l3: "length D3 = 4 * w * h" and l4: "length D4 = 4 * w * h"
    and l5: "length D5 = 4 * w * h" and l6: "length D6 = 4 * w * h"
    using len by (simp_all add: D3_def D4_def D5_def D6_def)
  have j': "j < length D3" "j < length D4" "j < length D5" "j < length D6"
    using j len l3 l4 l5 l6 by simp_all
  have here: "j div 4 = k \<longleftrightarrow> px = x \<and> py = y"
    unfolding k_def px_def py_def by (rule pixel_coords [OF x])
  have e3: "D3 ! j = (if px = x \<and> py = y \<and> j mod 4 \<noteq> 3 then ToUint8Clamp new else d ! j)"
    unfolding D3_def using wr3_nth [OF j, of k new] here by auto
  have e4: "D4 ! j = (if j mod 4 \<noteq> 3 \<and> px = x + 1 \<and> py = y
      then clamp_byte (jadd (byte (D3 ! j)) (jmul e (Num (7 / 16)))) else D3 ! j)"
    unfolding D4_def fs_distribute_nth [OF l3 j'(1)] e_def px_def py_def by auto
  have e5: "D5 ! j = (if j mod 4 \<noteq> 3 \<and> px + 1 = x \<and> py = y + 1
      then clamp_byte (jadd (byte (D4 ! j)) (jmul e (Num (3 / 16)))) else D4 ! j)"
    unfolding D5_def fs_distribute_nth [OF l4 j'(2)] e_def px_def py_def by auto
  have e6: "D6 ! j = (if j mod 4 \<noteq> 3 \<and> px = x \<and> py = y + 1
      then clamp_byte (jadd (byte (D5 ! j)) (jmul e (Num (5 / 16)))) else D5 ! j)"
    unfolding D6_def fs_distribute_nth [OF l5 j'(3)] e_def px_def py_def by auto
  have e7: "D7 ! j = (if j mod 4 \<noteq> 3 \<and> px = x + 1 \<and> py = y + 1
      then clamp_byte (jadd (byte (D6 ! j)) (jmul e (Num (1 / 16)))) else D6 ! j)"
    unfolding D7_def fs_distribute_nth [OF l6 j'(4)] e_def px_def py_def by auto
  have c: "j mod 4 = 0 \<or> j mod 4 = 1 \<or> j mod 4 = 2 \<or> j mod 4 = 3" by presburger
  have es: "jsub (byte (d ! (4 * k + j mod 4))) new = e" if "j mod 4 \<noteq> 3"
    using c that by (auto simp add: e_def eR_def eG_def eB_def)
  have rhs: "fs_step_spec w h y x d ! j =
     (if j mod 4 = 3 then d ! j
      else if px = x \<and> py = y then ToUint8Clamp new
      else if px = x + 1 \<and> py = y then clamp_byte (jadd (byte (d ! j)) (jmul e (Num (7 / 16))))
      else if px + 1 = x \<and> py = y + 1 then clamp_byte (jadd (byte (d ! j)) (jmul e (Num (3 / 16))))
      else if px = x \<and> py = y + 1 then clamp_byte (jadd (byte (d ! j)) (jmul e (Num (5 / 16))))
      else if px = x + 1 \<and> py = y + 1 then clamp_byte (jadd (byte (d ! j)) (jmul e (Num (1 / 16))))
      else d ! j)"
    using j es by (simp add: fs_step_spec_def Let_def px_def py_def new_def k_def)
  show ?thesis
    unfolding lhs rhs e7 e6 e5 e4 e3 by auto
qed

lemma length_fs_step_spec [simp]: "length (fs_step_spec w h y x d) = length d"
  by (simp add: fs_step_spec_def)

lemma fs_pixel_refines:
  fixes w h x y :: nat
  assumes "length d = 4 * w * h" "x < w" "y < h"
  shows "fs_pixel (int w) (int h) (int y) (int x) d = fs_step_spec w h y x d"
proof (rule nth_equalityI)
  show "length (fs_pixel (int w) (int h) (int y) (int x) d) = length (fs_step_spec w h y x d)"
    by simp
next
  fix j
  assume "j < length (fs_pixel (int w) (int h) (int y) (int x) d)"
  then have "j < length d" by simp
  then show "fs_pixel (int w) (int h) (int y) (int x) d ! j = fs_step_spec w h y x d ! j"
    using assms by (intro fs_pixel_nth)
qed

lemma fold_product:
  "fold (\<lambda>(a, b). f a b) (List.product xs ys) s = fold (\<lambda>a. fold (\<lambda>b. f a b) ys) xs s"
proof (induction xs arbitrary: s)
  case Nil
  then show ?case by simp
next
  case (Cons a xs)
  have "fold (\<lambda>(a, b). f a b) (map (Pair a) ys) s = fold (\<lambda>b. f a b) ys s"
    by (simp add: fold_map comp_def)
  then show ?case using Cons.IH by simp
qed

lemma fs_loops_row_major:
  "fs_loops w h d =
     fold (\<lambda>(y, x). fs_pixel (int w) (int h) (int y) (int x)) (List.product [0..<h] [0..<w]) d"
  by (simp add: fs_loops_def fold_product)

lemma row_major_nth:
  assumes "k < w * h"
  shows "List.product [0..<h] [0..<w] ! k = (k div w, k mod w)"
proof -
  have wpos: "0 < w" using assms by (cases w) auto
  have "k div w < h" using assms by (simp add: less_mult_imp_div_less mult.commute)
  moreover have "k mod w < w" using wpos by simp
  moreover have "k < length [0..<h] * length [0..<w]" using assms by (simp add: mult.commute)
  ultimately show ?thesis by (simp add: product_nth)
qed

lemma fold_fs_pixel_length:
  "length (fold (\<lambda>(y, x). fs_pixel (int w) (int h) (int y) (int x)) ps d) = length d"
  by (induction ps arbitrary: d) (simp_all add: split_def)

lemma fold_fs_pixel_later:
  fixes w :: nat
  assumes "\<forall>(y, x) \<in> set ps. x < w \<and> j div 4 < y * w + x"
  shows "fold (\<lambda>(y, x). fs_pixel (int w) (int h) (int y) (int x)) ps d ! j = d ! j"
  using assms
proof (induction ps arbitrary: d)
  case Nil
  then show ?case by simp
next
  case (Cons p ps)
  obtain y x where p: "p = (y, x)" by (cases p)
  have "x < w" "j div 4 < y * w + x" using Cons.prems p by simp_all
  then have "fs_pixel (int w) (int h) (int y) (int x) d ! j = d ! j"
    by (intro fs_pixel_earlier) (simp_all add: index_nat_int)
  moreover have "fold (\<lambda>(y, x). fs_pixel (int w) (int h) (int y) (int x)) ps
                   (fs_pixel (int w) (int h) (int y) (int x) d) ! j
                 = fs_pixel (int w) (int h) (int y) (int x) d ! j"
    using Cons.prems by (intro Cons.IH) simp
  ultimately show ?case by (simp add: p)
qed

lemma fs_step_spec_here:
  fixes w h x y :: nat
  assumes "length d = 4 * w * h" "x < w" "y < h" "c < 3"
  shows "fs_step_spec w h y x d ! (4 * (y * w + x) + c) = ToUint8Clamp (fs_quantize d (y * w + x))"
proof -
  define k where "k = y * w + x"
  define j where "j = 4 * k + c"
  have "k < w * h" unfolding k_def by (rule pixel_index_less [OF assms(2,3)])
  then have lt: "j < length d" using assms(1,4) by (simp add: j_def)
  have dv: "j div 4 = k" and md: "j mod 4 = c"
    unfolding j_def using assms(4) by presburger+
  have co: "(j div 4) mod w = x" "(j div 4) div w = y"
    unfolding dv k_def using assms(2) by simp_all
  have "fs_step_spec w h y x d ! j = ToUint8Clamp (fs_quantize d k)"
    using lt assms(4) by (simp add: fs_step_spec_def Let_def co md flip: k_def)
  then show ?thesis by (simp only: j_def k_def)
qed

lemma fs_loops_decision:
  fixes w h k c :: nat
  assumes len: "length d = 4 * w * h" and k: "k < w * h" and c: "c < 3"
  shows "fs_loops w h d ! (4 * k + c) =
     ToUint8Clamp (fs_quantize
       (fold (\<lambda>(y, x). fs_pixel (int w) (int h) (int y) (int x))
          (take k (List.product [0..<h] [0..<w])) d) k)"
proof -
  let ?f = "\<lambda>(y, x). fs_pixel (int w) (int h) (int y) (int x)"
  let ?ps = "List.product [0..<h] [0..<w]"
  let ?acc = "fold ?f (take k ?ps) d"
  have wpos: "0 < w" using k by (cases w) auto
  have lps: "length ?ps = w * h" by (simp add: mult.commute)
  have pk: "?ps ! k = (k div w, k mod w)" by (rule row_major_nth [OF k])
  have kd: "k div w < h" using k by (simp add: less_mult_imp_div_less mult.commute)
  have km: "k mod w < w" using wpos by simp
  have kk: "k div w * w + k mod w = k" by simp
  have lacc: "length ?acc = 4 * w * h" using len by (simp add: fold_fs_pixel_length)
  have split: "?ps = take k ?ps @ ?ps ! k # drop (Suc k) ?ps"
    by (rule id_take_nth_drop) (simp only: lps k)
  have "fs_loops w h d = fold ?f ?ps d" by (rule fs_loops_row_major)
  also have "\<dots> = fold ?f (take k ?ps @ ?ps ! k # drop (Suc k) ?ps) d"
    using split by simp
  also have "\<dots> = fold ?f (drop (Suc k) ?ps) (fs_pixel (int w) (int h) (int (k div w)) (int (k mod w)) ?acc)"
    by (simp add: pk)
  finally have eq: "fs_loops w h d =
      fold ?f (drop (Suc k) ?ps) (fs_pixel (int w) (int h) (int (k div w)) (int (k mod w)) ?acc)" .
  have later: "\<forall>(y, x) \<in> set (drop (Suc k) ?ps). x < w \<and> (4 * k + c) div 4 < y * w + x"
  proof -
    have "x < w \<and> (4 * k + c) div 4 < y * w + x" if "(y, x) \<in> set (drop (Suc k) ?ps)" for y x
    proof -
      from that obtain i where i: "i < length (drop (Suc k) ?ps)" "drop (Suc k) ?ps ! i = (y, x)"
        by (auto simp add: in_set_conv_nth)
      have "i < w * h - Suc k" using i(1) by (simp only: length_drop lps)
      then have ilt: "Suc k + i < w * h" by linarith
      have "?ps ! (Suc k + i) = (y, x)" using i ilt lps by simp
      then have yx: "y = (Suc k + i) div w" "x = (Suc k + i) mod w"
        using row_major_nth [OF ilt] by simp_all
      have "y * w + x = Suc k + i" unfolding yx by simp
      moreover have "(4 * k + c) div 4 = k" using c by presburger
      ultimately show ?thesis using wpos yx(2) by simp
    qed
    then show ?thesis by auto
  qed
  have "fs_loops w h d ! (4 * k + c)
          = fs_pixel (int w) (int h) (int (k div w)) (int (k mod w)) ?acc ! (4 * k + c)"
    unfolding eq by (rule fold_fs_pixel_later [OF later])
  also have "\<dots> = fs_step_spec w h (k div w) (k mod w) ?acc ! (4 * k + c)"
    by (simp only: fs_pixel_refines [OF lacc km kd])
  also have "\<dots> = ToUint8Clamp (fs_quantize ?acc k)"
    using fs_step_spec_here [OF lacc km kd c] by (simp only: kk)
  finally show ?thesis .
qed

lemma fs_example_first:
  "fs_pixel 2 1 0 0 [200, 200, 200, 255, 100, 100, 100, 9] = [255, 255, 255, 255, 76, 76, 76, 9]"
  by (simp add: fs_pixel_def fs_distribute_def Let_def rd_def wr_def byte_def
      calculateLuminance_gray ToUint8Clamp_def)

lemma fs_example_second:
  "fs_pixel 2 1 0 1 [255, 255, 255, 255, 76, 76, 76, 9] = [255, 255, 255, 255, 0, 0, 0, 9]"
  by (simp add: fs_pixel_def fs_distribute_def Let_def rd_def wr_def byte_def
      calculateLuminance_gray ToUint8Clamp_def)

lemma fs_example_loops:
  "fs_loops 2 1 [200, 200, 200, 255, 100, 100, 100, 9] = [255, 255, 255, 255, 0, 0, 0, 9]"
proof -
  have "[0..<2] = [0, 1]" "[0..<1] = [0]" by (simp_all add: upt_rec)
  then show ?thesis
    by (simp add: fs_loops_def fs_example_first fs_example_second)
qed

section \<open>Facts about the engine\<close>

lemma js_rem_pos:
  assumes "0 < b" "0 \<le> a"
  shows "js_rem a b = a - b * of_int \<lfloor>a / b\<rfloor>" and "0 \<le> js_rem a b" and "js_rem a b < b"
proof -
  have q: "0 \<le> a / b" using assms by simp
  show r: "js_rem a b = a - b * of_int \<lfloor>a / b\<rfloor>"
    using q by (simp add: js_rem_def)
  have "b * of_int \<lfloor>a / b\<rfloor> \<le> b * (a / b)"
    using assms(1) by (intro mult_left_mono of_int_floor_le) simp
  also have "\<dots> = a" using assms(1) by simp
  finally show "0 \<le> js_rem a b" unfolding r by simp
  have "a / b < of_int \<lfloor>a / b\<rfloor> + 1" by linarith
  then have "b * (a / b) < b * (of_int \<lfloor>a / b\<rfloor> + 1)"
    using assms(1) by (intro mult_strict_left_mono)
  moreover have "b * (a / b) = a" using assms(1) by simp
  ultimately show "js_rem a b < b" unfolding r by (simp add: algebra_simps)
qed

lemma animate_skip:
  assumes "isPlaying e" "timestamp - lastFrameTime e < frameInterval e"
  shows "frames (animate timestamp e) = frames e"
    and "lastFrameTime (animate timestamp e) = lastFrameTime e"
  using assms by (simp_all add: animate_def requestAnimationFrame_def Let_def)

lemma animate_fire:
  assumes "isPlaying e" "frameInterval e \<le> timestamp - lastFrameTime e" "0 < frameInterval e"
  shows "frames (animate timestamp e) = frames e @ [timestamp]"
    and "lastFrameTime (animate timestamp e) =
           lastFrameTime e + frameInterval e
             * of_int \<lfloor>(timestamp - lastFrameTime e) / frameInterval e\<rfloor>"
    and "1 \<le> \<lfloor>(timestamp - lastFrameTime e) / frameInterval e\<rfloor>"
    and "lastFrameTime (animate timestamp e) \<le> timestamp"
    and "timestamp < lastFrameTime (animate timestamp e) + frameInterval e"
proof -
  let ?I = "frameInterval e"
  let ?el = "timestamp - lastFrameTime e"
  have el: "0 \<le> ?el" using assms(2,3) by linarith
  note r = js_rem_pos [OF assms(3) el]
  have l: "lastFrameTime (animate timestamp e) = timestamp - js_rem ?el ?I"
    using assms(1,2) by (simp add: animate_def requestAnimationFrame_def processFrame_def Let_def)
  show "frames (animate timestamp e) = frames e @ [timestamp]"
    using assms(1,2) by (simp add: animate_def requestAnimationFrame_def processFrame_def Let_def)
  show "lastFrameTime (animate timestamp e) = lastFrameTime e + ?I * of_int \<lfloor>?el / ?I\<rfloor>"
    unfolding l r(1) by simp
  have "1 \<le> ?el / ?I" using assms(2,3) by (simp add: pos_le_divide_eq)
  then show "1 \<le> \<lfloor>?el / ?I\<rfloor>" by (simp add: le_floor_iff)
  show "lastFrameTime (animate timestamp e) \<le> timestamp"
    unfolding l using r(2) by simp
  show "timestamp < lastFrameTime (animate timestamp e) + ?I"
    unfolding l using r(3) by simp
qed

lemma animate_keeps [simp]:
  "isPlaying (animate timestamp e) = isPlaying e"
  "frameInterval (animate timestamp e) = frameInterval e"
  by (simp_all add: animate_def requestAnimationFrame_def processFrame_def Let_def)

lemma animate_stopped: "\<not> isPlaying e \<Longrightarrow> animate timestamp e = e"
  by (simp add: animate_def)

lemma run_keeps [simp]:
  "isPlaying (run ts e) = isPlaying e" "frameInterval (run ts e) = frameInterval e"
  unfolding run_def by (induction ts arbitrary: e) simp_all

lemma animate_at_most_one:
  "frames (animate timestamp e) = frames e \<or> frames (animate timestamp e) = frames e @ [timestamp]"
  by (simp add: animate_def requestAnimationFrame_def processFrame_def Let_def)

lemma run_never_queues: "length (frames (run ts e)) \<le> length (frames e) + length ts"
  unfolding run_def
proof (induction ts arbitrary: e)
  case Nil
  then show ?case by simp
next
  case (Cons t ts)
  have "length (frames (animate t e)) \<le> length (frames e) + 1"
    using animate_at_most_one [of t e] by auto
  then show ?case using Cons.IH [of "animate t e"] by simp
qed

lemma paced_init: "frames e = [] \<Longrightarrow> paced I (lastFrameTime e) e"
  by (simp add: paced_def)

lemma paced_animate:
  assumes p: "paced I L0 e" and I: "frameInterval e = I" "0 < I"
  shows "paced I L0 (animate timestamp e)"
proof (cases "isPlaying e \<and> I \<le> timestamp - lastFrameTime e")
  case False
  then have "\<not> isPlaying e \<or> timestamp - lastFrameTime e < frameInterval e"
    using I(1) by auto
  then have "frames (animate timestamp e) = frames e"
    "lastFrameTime (animate timestamp e) = lastFrameTime e"
    using animate_skip [of e timestamp] animate_stopped [of e timestamp]
    by (cases "isPlaying e"; simp)+
  then show ?thesis using p by (simp add: paced_def)
next
  case True
  let ?fr = "frames e"
  let ?n = "length ?fr"
  let ?L = "lastFrameTime e"
  let ?L' = "lastFrameTime (animate timestamp e)"
  have pl: "isPlaying e" and el: "frameInterval e \<le> timestamp - ?L" and ip: "0 < frameInterval e"
    using True I by simp_all
  note f = animate_fire [OF pl el ip]
  have "I * 1 \<le> I * rat_of_int \<lfloor>(timestamp - ?L) / frameInterval e\<rfloor>"
    using f(3) I(2) by (intro mult_left_mono) simp_all
  then have adv: "?L + I \<le> ?L'" using f(2) I(1) by simp
  have lo: "?L' \<le> timestamp" and hi: "timestamp < ?L' + I" using f(4,5) I(1) by simp_all
  have p1: "L0 + of_nat ?n * I \<le> ?L"
    and p2: "\<And>i. i < ?n \<Longrightarrow> ?fr ! i + (of_nat ?n - of_nat i) * I < ?L + 2 * I"
    and p3: "\<And>i j. i < j \<Longrightarrow> j < ?n \<Longrightarrow> (of_nat j - of_nat i - 1) * I < ?fr ! j - ?fr ! i"
    and p4: "\<And>i. i < ?n \<Longrightarrow> L0 + of_nat (Suc i) * I \<le> ?fr ! i"
    using p by (simp_all add: paced_def)
  have q1: "L0 + of_nat (Suc ?n) * I \<le> ?L'"
    using p1 adv by (simp add: algebra_simps)
  have q2: "(?fr @ [timestamp]) ! i + (of_nat (Suc ?n) - of_nat i) * I < ?L' + 2 * I"
    if "i < Suc ?n" for i
  proof (cases "i < ?n")
    case True
    then show ?thesis using p2 [OF True] adv by (simp add: nth_append algebra_simps)
  next
    case False
    then have "i = ?n" using that by simp
    then show ?thesis using hi by (simp add: algebra_simps)
  qed
  have q3: "(of_nat j - of_nat i - 1) * I < (?fr @ [timestamp]) ! j - (?fr @ [timestamp]) ! i"
    if "i < j" "j < Suc ?n" for i j
  proof (cases "j < ?n")
    case True
    then show ?thesis using p3 [OF that(1) True] that(1) by (simp add: nth_append)
  next
    case False
    then have j: "j = ?n" using that(2) by simp
    have i: "i < ?n" using that(1) j by simp
    show ?thesis using p2 [OF i] adv lo i by (simp add: j nth_append algebra_simps)
  qed
  have q4: "L0 + of_nat (Suc i) * I \<le> (?fr @ [timestamp]) ! i" if "i < Suc ?n" for i
  proof (cases "i < ?n")
    case True
    then show ?thesis using p4 [OF True] by (simp add: nth_append)
  next
    case False
    then have "i = ?n" using that by simp
    then show ?thesis using q1 lo by simp
  qed
  show ?thesis
    unfolding paced_def f(1) using q1 q2 q3 q4 by simp
qed

lemma paced_run:
  assumes "paced I L0 e" "frameInterval e = I" "0 < I"
  shows "paced I L0 (run ts e)"
  using assms unfolding run_def
proof (induction ts arbitrary: e)
  case Nil
  then show ?case by simp
next
  case (Cons t ts)
  have "paced I L0 (animate t e)" by (rule paced_animate [OF Cons.prems])
  then show ?case using Cons.prems(2,3) by (simp add: Cons.IH)
qed

lemma paced_window:
  fixes F :: nat
  assumes p: "paced (1000 / of_nat F) L0 e" and F: "0 < F"
    and ij: "i \<le> j" "j < length (frames e)" and w: "frames e ! j - frames e ! i \<le> 1000"
  shows "j - i \<le> F"
proof (cases "i = j")
  case True
  then show ?thesis by simp
next
  case False
  then have lt: "i < j" using ij(1) by simp
  let ?I = "1000 / rat_of_nat F"
  have Ipos: "0 < ?I" using F by simp
  have "(of_nat j - of_nat i - 1) * ?I < frames e ! j - frames e ! i"
    using p lt ij(2) by (simp add: paced_def)
  then have "(of_nat j - of_nat i - 1) * ?I < 1000" using w by linarith
  also have "1000 = rat_of_nat F * ?I" using F by simp
  finally have "rat_of_nat j - rat_of_nat i - 1 < rat_of_nat F"
    using Ipos by (simp only: mult_less_cancel_right_pos)
  then have "rat_of_nat j < rat_of_nat (F + i + 1)" by simp
  then have "j < F + i + 1" by (simp only: of_nat_less_iff)
  then show ?thesis by simp
qed


lemma e10: "snd (play 0 True (AsciiVideoEngine_new opts10)) =
  \<lparr>container = Some [''ascii-output-canvas''], videoPlaylist = [''a.mp4''], targetFps = 10,
     renderMode = CanvasMode, video = Some \<lparr>src = ''a.mp4'', playing = True\<rparr>, canvas = True,
     ctx = True, outputCanvas = Some ''ascii-output-canvas'', outputCtx = True, outputPre = None,
     isPlaying = True, rafId = Some 1, lastFrameTime = 0, frameInterval = 100,
     stats_frameCount = 0, stats_lastFpsUpdate = 0, rafNext = 2, frames = [], warnings = 0\<rparr>"
  by (simp add: play_def AsciiVideoEngine_new_def opts10_def animate_def requestAnimationFrame_def
      Let_def)

lemma pause_null: "video e = None \<Longrightarrow> pause e = (Some TypeError, e\<lparr>isPlaying := False\<rparr>)"
  by (simp add: pause_def Let_def)

lemma pause_video:
  assumes "video e = Some v"
  shows "fst (pause e) = None" and "video (snd (pause e)) = Some (v\<lparr>playing := False\<rparr>)"
    and "isPlaying (snd (pause e)) = False" and "rafId (snd (pause e)) = None"
    and "outputCanvas (snd (pause e)) = outputCanvas e"
    and "outputPre (snd (pause e)) = outputPre e"
    and "container (snd (pause e)) = container e"
    and "warnings (snd (pause e)) = warnings e"
  using assms by (simp_all add: pause_def Let_def split: option.split)


lemma destroy_video:
  assumes "video e = Some v"
  shows "fst (destroy e) = None" and "video (snd (destroy e)) = None"
    and "outputCanvas (snd (destroy e)) = None" and "outputPre (snd (destroy e)) = None"
    and "isPlaying (snd (destroy e)) = False"
    and "container (snd (destroy e))
           = removeChild (removeChild (container e) (outputCanvas e)) (outputPre e)"
proof -
  obtain e1 where p: "pause e = (None, e1)"
    using pause_video(1) [OF assms] by (cases "pause e") auto
  have e1: "video e1 = Some (v\<lparr>playing := False\<rparr>)" "isPlaying e1 = False"
    "outputCanvas e1 = outputCanvas e" "outputPre e1 = outputPre e" "container e1 = container e"
    using pause_video [OF assms] p by simp_all
  have d: "destroy e =
     (None, e1\<lparr>video := None,
               container := removeChild (container e1) (outputCanvas e1),
               container := removeChild (removeChild (container e1) (outputCanvas e1)) (outputPre e1),
               canvas := False, ctx := False, outputCanvas := None,
               outputCtx := False, outputPre := None\<rparr>)"
    by (simp add: destroy_def p e1 Let_def)
  show "fst (destroy e) = None" and "video (snd (destroy e)) = None"
    and "outputCanvas (snd (destroy e)) = None" and "outputPre (snd (destroy e)) = None"
    and "isPlaying (snd (destroy e)) = False"
    and "container (snd (destroy e))
           = removeChild (removeChild (container e) (outputCanvas e)) (outputPre e)"
    unfolding d by (simp_all add: e1)
qed

lemma destroy_null: "video e = None \<Longrightarrow> destroy e = (Some TypeError, e\<lparr>isPlaying := False\<rparr>)"
  by (simp add: destroy_def pause_null)

lemma destroy_terminal:
  assumes "video e = Some v"
  shows "fst (pause (snd (destroy e))) = Some TypeError"
    and "fst (destroy (snd (destroy e))) = Some TypeError"
    and "play now allowed (snd (destroy e))
           = (None, (snd (destroy e))\<lparr>warnings := warnings (snd (destroy e)) + 1\<rparr>)"
proof -
  note d = destroy_video [OF assms]
  show "fst (pause (snd (destroy e))) = Some TypeError"
    by (simp add: pause_null [OF d(2)])
  show "fst (destroy (snd (destroy e))) = Some TypeError"
    by (simp add: destroy_null [OF d(2)])
  show "play now allowed (snd (destroy e))
           = (None, (snd (destroy e))\<lparr>warnings := warnings (snd (destroy e)) + 1\<rparr>)"
    using d(2,5) by (simp add: play_def)
qed

lemma new_engine_video:
  "video (AsciiVideoEngine_new opts10) = Some \<lparr>src = ''a.mp4'', playing = False\<rparr>"
  "outputCanvas (AsciiVideoEngine_new opts10) = Some ''ascii-output-canvas''"
  "outputPre (AsciiVideoEngine_new opts10) = None"
  "container (AsciiVideoEngine_new opts10) = Some [''ascii-output-canvas'']"
  by (simp_all add: AsciiVideoEngine_new_def opts10_def Let_def)

section \<open>Facts about the phase animator\<close>

lemmas animator_defs = runAnimation_def advance_def complete_def perform_def setProp_def
  startFlowLoop_def

lemma startMetamorphosis_started:
  assumes "canvasSet a \<or> canvasInDocument a" "\<not> isRunning a"
  shows "startMetamorphosis a = runAnimation (a\<lparr>canvasSet := True, isRunning := True\<rparr>)"
proof (cases "canvasSet a")
  case True
  have "a\<lparr>canvasSet := canvasSet a\<rparr> = a" by simp
  then have e: "a\<lparr>canvasSet := True\<rparr> = a" using True by simp
  show ?thesis using True assms(2) by (subst e) (simp add: startMetamorphosis_def)
next
  case False
  then have "canvasInDocument a" using assms(1) by simp
  then show ?thesis
    using False assms(2) by (simp add: startMetamorphosis_def initMetamorphosis_def)
qed

lemma started_trace:
  assumes "canvasSet a \<or> canvasInDocument a" "\<not> isRunning a"
  shows "phaseTrace 24 (startMetamorphosis a)
       = [Start, Start, Start, Chaos, Chaos, Chaos, Order, Order, Order, Converge, Converge,
          Converge, Wave, Wave, Wave, Filter, Filter, Filter, Split, Split, Split, Split,
          Flow, Flow, Flow]"
  unfolding startMetamorphosis_started [OF assms]
  by (simp add: phaseTrace_def animator_defs upt_rec eval_nat_numeral)

lemma started_completed:
  assumes "canvasSet a \<or> canvasInDocument a" "\<not> isRunning a"
  shows "mainTimeline ((advance ^^ 24) (startMetamorphosis a)) = Some []"
    and "flowLoop ((advance ^^ 24) (startMetamorphosis a)) = Some 0"
    and "currentPhase ((advance ^^ 24) (startMetamorphosis a)) = Flow"
    and "isRunning ((advance ^^ 24) (startMetamorphosis a))"
  unfolding startMetamorphosis_started [OF assms]
  by (simp_all add: animator_defs eval_nat_numeral)

lemma flow_loop_step:
  assumes "mainTimeline b = Some []" "flowLoop b = Some n"
  shows "mainTimeline (advance b) = Some []" and "flowLoop (advance b) = Some (Suc n)"
    and "currentPhase (advance b) = currentPhase b" and "isRunning (advance b) = isRunning b"
  using assms by (simp_all add: advance_def)

lemma flow_loop_forever:
  assumes "mainTimeline b = Some []" "flowLoop b = Some m"
  shows "mainTimeline ((advance ^^ n) b) = Some [] \<and> flowLoop ((advance ^^ n) b) = Some (m + n)
       \<and> currentPhase ((advance ^^ n) b) = currentPhase b
       \<and> isRunning ((advance ^^ n) b) = isRunning b"
proof (induction n)
  case 0
  then show ?case using assms by simp
next
  case (Suc n)
  then show ?case
    using flow_loop_step [of "(advance ^^ n) b" "m + n"] by simp
qed

lemma stopped:
  assumes "isRunning b"
  shows "flowLoop (stopMetamorphosis b) = None" and "mainTimeline (stopMetamorphosis b) = None"
    and "\<not> isRunning (stopMetamorphosis b)"
    and "advance (stopMetamorphosis b) = stopMetamorphosis b"
    and "stopMetamorphosis (stopMetamorphosis b) = stopMetamorphosis b"
  using assms by (simp_all add: stopMetamorphosis_def advance_def)

section \<open>Claims\<close>



text \<open>
  C2. For every image whose bytes are in the store, each of \<open>floydSteinbergDither\<close>,
  \<open>atkinsonDither\<close> and \<open>bayerDither\<close> returns, without throwing, an image of the same
  width and height whose bytes are in a new array: every R, G and B byte of it is 0 or
  255, every alpha byte is the one of the input, and every array that was in the store,
  the input's among them, is unchanged.
\<close>

theorem C2_dithering:
  assumes "data img < length hp" and "wf_image (deref hp img)"
  shows "(\<exists>hp' out. floydSteinbergDither hp img = Inr (hp', out) \<and> dithered hp img hp' out)
       \<and> (\<exists>hp' out. atkinsonDither hp img = Inr (hp', out) \<and> dithered hp img hp' out)
       \<and> (\<exists>hp' out. bayerDither hp img = Inr (hp', out) \<and> dithered hp img hp' out)"
proof -
  have "\<exists>hp' out. floydSteinbergDither hp img = Inr (hp', out) \<and> dithered hp img hp' out"
    unfolding floydSteinbergDither_def
    using dither_heap [OF assms, of fs_loops, OF fs_loops_inv] by blast
  moreover
  have "\<exists>hp' out. atkinsonDither hp img = Inr (hp', out) \<and> dithered hp img hp' out"
    unfolding atkinsonDither_def
    using dither_heap [OF assms, of atkinson_loops, OF atkinson_loops_inv] by blast
  moreover
  have "\<exists>hp' out. bayerDither hp img = Inr (hp', out) \<and> dithered hp img hp' out"
    unfolding bayerDither_def
    using dither_heap [OF assms, of bayer_loops, OF bayer_loops_inv] by blast
  ultimately show ?thesis by blast
qed

theorem C2_dithering_witness:
  "data \<lparr>width = 2, height = 1, data = 0\<rparr> < length [[200, 200, 200, 255, 100, 100, 100, 9 :: 8 word]]
   \<and> wf_image (deref [[200, 200, 200, 255, 100, 100, 100, 9]] \<lparr>width = 2, height = 1, data = 0\<rparr>)
   \<and> floydSteinbergDither [[200, 200, 200, 255, 100, 100, 100, 9]] \<lparr>width = 2, height = 1, data = 0\<rparr>
        = Inr ([[200, 200, 200, 255, 100, 100, 100, 9], [255, 255, 255, 255, 0, 0, 0, 9]],
               \<lparr>width = 2, height = 1, data = 1\<rparr>)
   \<and> (\<exists>hp' out. atkinsonDither [[200, 200, 200, 255, 100, 100, 100, 9]]
                    \<lparr>width = 2, height = 1, data = 0\<rparr> = Inr (hp', out)
          \<and> dithered [[200, 200, 200, 255, 100, 100, 100, 9]] \<lparr>width = 2, height = 1, data = 0\<rparr> hp' out)
   \<and> (\<exists>hp' out. bayerDither [[200, 200, 200, 255, 100, 100, 100, 9]]
                    \<lparr>width = 2, height = 1, data = 0\<rparr> = Inr (hp', out)
          \<and> dithered [[200, 200, 200, 255, 100, 100, 100, 9]] \<lparr>width = 2, height = 1, data = 0\<rparr> hp' out)"
proof -
  let ?hp = "[[200, 200, 200, 255, 100, 100, 100, 9 :: 8 word]]"
  let ?img = "\<lparr>width = 2, height = 1, data = 0 :: nat\<rparr>"
  have a: "data ?img < length ?hp" by simp
  have b: "wf_image (deref ?hp ?img)" by (simp add: wf_image_def deref_def)
  have e: "fs_loops 2 (Suc 0) [200, 200, 200, 255, 100, 100, 100, 9] = [255, 255, 255, 255, 0, 0, 0, 9]"
    using fs_example_loops by simp
  have c: "floydSteinbergDither ?hp ?img
        = Inr ([[200, 200, 200, 255, 100, 100, 100, 9], [255, 255, 255, 255, 0, 0, 0, 9]],
               \<lparr>width = 2, height = 1, data = 1\<rparr>)"
    by (simp add: floydSteinbergDither_def new_Uint8ClampedArray_def e new_ImageData_def)
  show ?thesis
    using C2_dithering [OF a b] a b c by blast
qed





text \<open>
  C5. For a cell inside the character grid, \<open>encodeBlocks\<close> gives the glyph of
  \<open>QUADRANT_CHARS\<close> at the pattern with top-left = 1, top-right = 2, bottom-left = 4,
  bottom-right = 8 for the sub-pixels whose luminance exceeds the threshold, and
  \<open>encodeBraille\<close> gives the code point \<open>0x2800\<close> plus the pattern with the eight dot
  bits \<open>0x01, 0x08, 0x02, 0x10, 0x04, 0x20, 0x40, 0x80\<close>. So a cell whose sub-pixels are
  all at or below the threshold is the space, respectively \<open>U+2800\<close>; one whose
  sub-pixels all exceed it is \<open>U+2588\<close>, respectively \<open>U+28FF\<close>; and two cells (of any
  two images and thresholds) with the same on/off pattern get the same character.
\<close>

theorem C5_block_encoders:
  assumes "charX < nat \<lceil>rat_of_nat (width img) / 2\<rceil>"
    and "charY < nat \<lceil>rat_of_nat (height img) / 2\<rceil>"
    and "bX < nat \<lceil>rat_of_nat (width img) / 2\<rceil>"
    and "bY < nat \<lceil>rat_of_nat (height img) / 4\<rceil>"
    and "charX' < nat \<lceil>rat_of_nat (width img') / 2\<rceil>"
    and "charY' < nat \<lceil>rat_of_nat (height img') / 2\<rceil>"
    and "bX' < nat \<lceil>rat_of_nat (width img') / 2\<rceil>"
    and "bY' < nat \<lceil>rat_of_nat (height img') / 4\<rceil>"
  shows "(encodeBlocks img thr ! charY ! charX =
           QUADRANT_CHARS !
             (of_bool (subpixelOn img thr (int charX * 2) (int charY * 2))
              + 2 * of_bool (subpixelOn img thr (int charX * 2 + 1) (int charY * 2))
              + 4 * of_bool (subpixelOn img thr (int charX * 2) (int charY * 2 + 1))
              + 8 * of_bool (subpixelOn img thr (int charX * 2 + 1) (int charY * 2 + 1))))
    \<and> ((\<forall>dx \<in> {0, 1}. \<forall>dy \<in> {0, 1}.
            jle (lumAt img (int charX * 2 + dx) (int charY * 2 + dy)) thr)
         \<longrightarrow> encodeBlocks img thr ! charY ! charX = 0x20)
    \<and> ((\<forall>dx \<in> {0, 1}. \<forall>dy \<in> {0, 1}.
            jgt (lumAt img (int charX * 2 + dx) (int charY * 2 + dy)) thr)
         \<longrightarrow> encodeBlocks img thr ! charY ! charX = 0x2588)
    \<and> ((\<forall>dx \<in> {0, 1}. \<forall>dy \<in> {0, 1}.
            subpixelOn img thr (int charX * 2 + dx) (int charY * 2 + dy)
            = subpixelOn img' thr' (int charX' * 2 + dx) (int charY' * 2 + dy))
         \<longrightarrow> encodeBlocks img thr ! charY ! charX = encodeBlocks img' thr' ! charY' ! charX')
    \<and> (encodeBraille img thr ! bY ! bX =
           0x2800 +
             (of_bool (subpixelOn img thr (int bX * 2) (int bY * 4))
              + 8 * of_bool (subpixelOn img thr (int bX * 2 + 1) (int bY * 4))
              + 2 * of_bool (subpixelOn img thr (int bX * 2) (int bY * 4 + 1))
              + 16 * of_bool (subpixelOn img thr (int bX * 2 + 1) (int bY * 4 + 1))
              + 4 * of_bool (subpixelOn img thr (int bX * 2) (int bY * 4 + 2))
              + 32 * of_bool (subpixelOn img thr (int bX * 2 + 1) (int bY * 4 + 2))
              + 64 * of_bool (subpixelOn img thr (int bX * 2) (int bY * 4 + 3))
              + 128 * of_bool (subpixelOn img thr (int bX * 2 + 1) (int bY * 4 + 3))))
    \<and> ((\<forall>dx \<in> {0, 1}. \<forall>dy \<in> {0, 1, 2, 3}.
            jle (lumAt img (int bX * 2 + dx) (int bY * 4 + dy)) thr)
         \<longrightarrow> encodeBraille img thr ! bY ! bX = 0x2800)
    \<and> ((\<forall>dx \<in> {0, 1}. \<forall>dy \<in> {0, 1, 2, 3}.
            jgt (lumAt img (int bX * 2 + dx) (int bY * 4 + dy)) thr)
         \<longrightarrow> encodeBraille img thr ! bY ! bX = 0x28FF)
    \<and> ((\<forall>dx \<in> {0, 1}. \<forall>dy \<in> {0, 1, 2, 3}.
            subpixelOn img thr (int bX * 2 + dx) (int bY * 4 + dy)
            = subpixelOn img' thr' (int bX' * 2 + dx) (int bY' * 4 + dy))
         \<longrightarrow> encodeBraille img thr ! bY ! bX = encodeBraille img' thr' ! bY' ! bX')"
proof -
  note q = encodeBlocks_cell [OF assms(1,2), of thr] encodeBlocks_cell [OF assms(5,6), of thr']
  note b = encodeBraille_cell [OF assms(3,4), of thr] encodeBraille_cell [OF assms(7,8), of thr']
  have c1: "encodeBlocks img thr ! charY ! charX =
           QUADRANT_CHARS !
             (of_bool (subpixelOn img thr (int charX * 2) (int charY * 2))
              + 2 * of_bool (subpixelOn img thr (int charX * 2 + 1) (int charY * 2))
              + 4 * of_bool (subpixelOn img thr (int charX * 2) (int charY * 2 + 1))
              + 8 * of_bool (subpixelOn img thr (int charX * 2 + 1) (int charY * 2 + 1)))"
    by (simp only: q quadrantPattern_bits)
  have c2: "(\<forall>dx \<in> {0, 1}. \<forall>dy \<in> {0, 1}.
            jle (lumAt img (int charX * 2 + dx) (int charY * 2 + dy)) thr)
         \<longrightarrow> encodeBlocks img thr ! charY ! charX = 0x20"
    by (simp add: q quadrantPattern_bits jle_not_on QUADRANT_CHARS_def)
  have c3: "(\<forall>dx \<in> {0, 1}. \<forall>dy \<in> {0, 1}.
            jgt (lumAt img (int charX * 2 + dx) (int charY * 2 + dy)) thr)
         \<longrightarrow> encodeBlocks img thr ! charY ! charX = 0x2588"
    by (simp add: q quadrantPattern_bits subpixelOn_lumAt QUADRANT_CHARS_def)
  have c4: "(\<forall>dx \<in> {0, 1}. \<forall>dy \<in> {0, 1}.
            subpixelOn img thr (int charX * 2 + dx) (int charY * 2 + dy)
            = subpixelOn img' thr' (int charX' * 2 + dx) (int charY' * 2 + dy))
         \<longrightarrow> encodeBlocks img thr ! charY ! charX = encodeBlocks img' thr' ! charY' ! charX'"
    by (simp add: q quadrantPattern_bits)
  have c5: "encodeBraille img thr ! bY ! bX =
           0x2800 +
             (of_bool (subpixelOn img thr (int bX * 2) (int bY * 4))
              + 8 * of_bool (subpixelOn img thr (int bX * 2 + 1) (int bY * 4))
              + 2 * of_bool (subpixelOn img thr (int bX * 2) (int bY * 4 + 1))
              + 16 * of_bool (subpixelOn img thr (int bX * 2 + 1) (int bY * 4 + 1))
              + 4 * of_bool (subpixelOn img thr (int bX * 2) (int bY * 4 + 2))
              + 32 * of_bool (subpixelOn img thr (int bX * 2 + 1) (int bY * 4 + 2))
              + 64 * of_bool (subpixelOn img thr (int bX * 2) (int bY * 4 + 3))
              + 128 * of_bool (subpixelOn img thr (int bX * 2 + 1) (int bY * 4 + 3)))"
    by (simp only: b braillePattern_bits)
  have c6: "(\<forall>dx \<in> {0, 1}. \<forall>dy \<in> {0, 1, 2, 3}.
            jle (lumAt img (int bX * 2 + dx) (int bY * 4 + dy)) thr)
         \<longrightarrow> encodeBraille img thr ! bY ! bX = 0x2800"
    by (simp add: b braillePattern_bits jle_not_on)
  have c7: "(\<forall>dx \<in> {0, 1}. \<forall>dy \<in> {0, 1, 2, 3}.
            jgt (lumAt img (int bX * 2 + dx) (int bY * 4 + dy)) thr)
         \<longrightarrow> encodeBraille img thr ! bY ! bX = 0x28FF"
    by (simp add: b braillePattern_bits subpixelOn_lumAt)
  have c8: "(\<forall>dx \<in> {0, 1}. \<forall>dy \<in> {0, 1, 2, 3}.
            subpixelOn img thr (int bX * 2 + dx) (int bY * 4 + dy)
            = subpixelOn img' thr' (int bX' * 2 + dx) (int bY' * 4 + dy))
         \<longrightarrow> encodeBraille img thr ! bY ! bX = encodeBraille img' thr' ! bY' ! bX'"
    by (simp add: b braillePattern_bits)
  show ?thesis
    by (intro conjI) (fact c1 c2 c3 c4 c5 c6 c7 c8)+
qed


theorem C5_block_encoders_witness:
  "(0::nat) < nat \<lceil>rat_of_nat (width \<lparr>width = 2, height = 4, data = replicate 32 (255 :: 8 word)\<rparr>) / 2\<rceil>
   \<and> (0::nat) < nat \<lceil>rat_of_nat (height \<lparr>width = 2, height = 4, data = replicate 32 (255 :: 8 word)\<rparr>) / 4\<rceil>
   \<and> encodeBlocks \<lparr>width = 2, height = 4, data = replicate 32 255\<rparr> (Num 128) ! 0 ! 0 = 0x2588
   \<and> encodeBraille \<lparr>width = 2, height = 4, data = replicate 32 255\<rparr> (Num 128) ! 0 ! 0 = 0x28FF
   \<and> encodeBlocks \<lparr>width = 2, height = 4, data = replicate 32 0\<rparr> (Num 128) ! 0 ! 0 = 0x20
   \<and> encodeBraille \<lparr>width = 2, height = 4, data = replicate 32 0\<rparr> (Num 128) ! 0 ! 0 = 0x2800"
proof -
  let ?w = "\<lparr>width = 2, height = 4, data = replicate 32 (255 :: 8 word)\<rparr>"
  let ?b = "\<lparr>width = 2, height = 4, data = replicate 32 (0 :: 8 word)\<rparr>"
  have r: "(0::nat) < nat \<lceil>rat_of_nat (width ?w) / 2\<rceil>"
    "(0::nat) < nat \<lceil>rat_of_nat (height ?w) / 2\<rceil>"
    "(0::nat) < nat \<lceil>rat_of_nat (height ?w) / 4\<rceil>"
    "(0::nat) < nat \<lceil>rat_of_nat (width ?b) / 2\<rceil>"
    "(0::nat) < nat \<lceil>rat_of_nat (height ?b) / 2\<rceil>"
    "(0::nat) < nat \<lceil>rat_of_nat (height ?b) / 4\<rceil>"
    by simp_all
  have w: "\<And>px py. 0 \<le> px \<Longrightarrow> px < 2 \<Longrightarrow> 0 \<le> py \<Longrightarrow> py < 4 \<Longrightarrow> lumAt ?w px py = Num 255"
    by (simp add: lumAt_def getPixelLuminance_def rd_def calculateLuminance_white_Num)
  have b: "\<And>px py. 0 \<le> px \<Longrightarrow> px < 2 \<Longrightarrow> 0 \<le> py \<Longrightarrow> py < 4 \<Longrightarrow> lumAt ?b px py = Num 0"
    by (simp add: lumAt_def getPixelLuminance_def rd_def calculateLuminance_black_Num)
  show ?thesis
    using C5_block_encoders [OF r(1) r(2) r(1) r(3) r(4) r(5) r(4) r(6), of "Num 128" "Num 128"]
      C5_block_encoders [OF r(4) r(5) r(4) r(6) r(1) r(2) r(1) r(3), of "Num 128" "Num 128"]
    by (simp add: subpixelOn_lumAt w b QUADRANT_CHARS_def)
qed

text \<open>
  C6. \<open>getPixelLuminance\<close> returns 0 for every array, every size and every pair of
  integers \<open>(x, y)\<close> with \<open>x < 0\<close>, \<open>x \<ge> width\<close>, \<open>y < 0\<close> or \<open>y \<ge> height\<close>, whatever
  the bytes of the array are: no other pixel is read. The function has no failing branch:
  no operation in it can throw on an array and numbers.
\<close>

theorem C6_getPixelLuminance_out_of_bounds:
  "x < 0 \<or> x \<ge> w \<or> y < 0 \<or> y \<ge> h \<Longrightarrow> getPixelLuminance d w h x y = Num 0"
  by (simp add: getPixelLuminance_def)

theorem C6_getPixelLuminance_out_of_bounds_witness:
  "getPixelLuminance (replicate 16 255) 2 2 (- 1) 0 = Num 0
   \<and> getPixelLuminance (replicate 16 255) 2 2 2 0 = Num 0
   \<and> getPixelLuminance (replicate 16 255) 2 2 0 1 = Num 255"
proof -
  have "getPixelLuminance (replicate 16 255) 2 2 0 1 = Num 255"
    by (simp add: getPixelLuminance_def rd_def calculateLuminance_white_Num)
  then show ?thesis
    using C6_getPixelLuminance_out_of_bounds [of "- 1" 2 0 2 "replicate 16 255"]
      C6_getPixelLuminance_out_of_bounds [of 2 2 0 2 "replicate 16 255"]
    by simp
qed




text \<open>
  C8. Starting the animator on a canvas and letting the 24 children of its timeline
  complete one after the other makes \<open>currentPhase\<close> run through start, chaos, order,
  converge, wave, filter, split and flow, in this order and each in one stretch; the
  timeline is then complete and the flow loop has started; the loop goes on for any
  number of further rounds with the phase staying flow, and \<open>stopMetamorphosis\<close> ends
  it: nothing advances afterwards.
\<close>

theorem C8_phase_sequence:
  assumes "canvasSet a \<or> canvasInDocument a" and "\<not> isRunning a"
  shows "remdups_adj (phaseTrace 24 (startMetamorphosis a))
           = [Start, Chaos, Order, Converge, Wave, Filter, Split, Flow]
    \<and> distinct [Start, Chaos, Order, Converge, Wave, Filter, Split, Flow]
    \<and> mainTimeline ((advance ^^ 24) (startMetamorphosis a)) = Some []
    \<and> (\<forall>n. currentPhase ((advance ^^ (24 + n)) (startMetamorphosis a)) = Flow
            \<and> flowLoop ((advance ^^ (24 + n)) (startMetamorphosis a)) = Some n
            \<and> isRunning ((advance ^^ (24 + n)) (startMetamorphosis a)))
    \<and> (\<forall>n. flowLoop (stopMetamorphosis ((advance ^^ (24 + n)) (startMetamorphosis a))) = None
            \<and> \<not> isRunning (stopMetamorphosis ((advance ^^ (24 + n)) (startMetamorphosis a)))
            \<and> advance (stopMetamorphosis ((advance ^^ (24 + n)) (startMetamorphosis a)))
                = stopMetamorphosis ((advance ^^ (24 + n)) (startMetamorphosis a)))"
proof -
  let ?s = "startMetamorphosis a"
  let ?b = "(advance ^^ 24) ?s"
  note c = started_completed [OF assms]
  have split: "(advance ^^ (24 + n)) ?s = (advance ^^ n) ?b" for n
    by (simp only: add.commute [of 24 n] funpow_add comp_apply)
  have loop: "currentPhase ((advance ^^ (24 + n)) ?s) = Flow
            \<and> flowLoop ((advance ^^ (24 + n)) ?s) = Some n
            \<and> isRunning ((advance ^^ (24 + n)) ?s)" for n
    unfolding split using flow_loop_forever [OF c(1,2), of n] c(3,4) by simp
  have stop: "flowLoop (stopMetamorphosis ((advance ^^ (24 + n)) ?s)) = None
            \<and> \<not> isRunning (stopMetamorphosis ((advance ^^ (24 + n)) ?s))
            \<and> advance (stopMetamorphosis ((advance ^^ (24 + n)) ?s))
                = stopMetamorphosis ((advance ^^ (24 + n)) ?s)" for n
    using stopped [of "(advance ^^ (24 + n)) ?s"] loop [of n] by blast
  have tr: "remdups_adj (phaseTrace 24 ?s) = [Start, Chaos, Order, Converge, Wave, Filter, Split, Flow]"
    by (simp only: started_trace [OF assms]) simp
  have di: "distinct [Start, Chaos, Order, Converge, Wave, Filter, Split, Flow]" by simp
  show ?thesis using tr di c(1) loop stop by blast
qed

theorem C8_phase_sequence_witness:
  "(canvasSet idle \<or> canvasInDocument idle) \<and> \<not> isRunning idle
   \<and> phaseTrace 24 (startMetamorphosis idle)
       = [Start, Start, Start, Chaos, Chaos, Chaos, Order, Order, Order, Converge, Converge,
          Converge, Wave, Wave, Wave, Filter, Filter, Filter, Split, Split, Split, Split,
          Flow, Flow, Flow]
   \<and> remdups_adj (phaseTrace 24 (startMetamorphosis idle))
       = [Start, Chaos, Order, Converge, Wave, Filter, Split, Flow]
   \<and> flowLoop ((advance ^^ (24 + 5)) (startMetamorphosis idle)) = Some 5
   \<and> flowLoop (stopMetamorphosis ((advance ^^ (24 + 5)) (startMetamorphosis idle))) = None"
proof -
  have h: "canvasSet idle \<or> canvasInDocument idle" "\<not> isRunning idle"
    by (simp_all add: idle_def)
  show ?thesis
    using C8_phase_sequence [OF h] started_trace [OF h] h by blast
qed

text \<open>
  C9. \<open>destroy\<close> on a new engine returns normally, sets the video and the output canvas
  to \<open>null\<close> and removes the canvas from the container; a later \<open>play\<close> returns
  normally and leaves the engine not playing; but a later \<open>pause\<close>, and so a second
  \<open>destroy\<close>, throws a \<open>TypeError\<close>, since \<open>pause\<close> calls a method of the video, which
  is \<open>null\<close>.
\<close>

theorem C9_pause_after_destroy_throws:
  "fst (destroy (AsciiVideoEngine_new opts10)) = None
   \<and> video (snd (destroy (AsciiVideoEngine_new opts10))) = None
   \<and> outputCanvas (snd (destroy (AsciiVideoEngine_new opts10))) = None
   \<and> container (snd (destroy (AsciiVideoEngine_new opts10))) = Some []
   \<and> fst (play 5 True (snd (destroy (AsciiVideoEngine_new opts10)))) = None
   \<and> isPlaying (snd (play 5 True (snd (destroy (AsciiVideoEngine_new opts10))))) = False
   \<and> fst (pause (snd (destroy (AsciiVideoEngine_new opts10)))) = Some TypeError
   \<and> fst (destroy (snd (destroy (AsciiVideoEngine_new opts10)))) = Some TypeError"
  using destroy_video [OF new_engine_video(1)] destroy_terminal(1,2) [OF new_engine_video(1)]
    destroy_terminal(3) [OF new_engine_video(1), where now = 5 and allowed = True]
  by (simp add: new_engine_video removeChild_def)

text \<open>
  C10. With an empty ramp \<open>charForLuminance\<close> returns one space, and with a ramp of one
  character it returns that character, for every luminance (\<open>NaN\<close> too) and both
  values of \<open>invert\<close>: the ramp is not indexed at all.
\<close>

theorem C10_charForLuminance_degenerate:
  "charForLuminance luminance [] invert = Str (map of_char '' '')
   \<and> charForLuminance luminance [c] invert = Str [c]"
  by (simp add: charForLuminance_def)

end
